theory Spec2Isabelle
  imports Main "HOL-Library.Word" "HOL-Library.Sublist"
begin

section \<open>Data model\<close>

text \<open>
  The control and scheduling core of the looping engine (\<^verbatim>\<open>engine.cpp\<close>). Frame counts
  and frame offsets are \<^verbatim>\<open>nframes_t\<close>, an unsigned 32-bit integer; an instance address
  is an \<^verbatim>\<open>int8_t\<close>. A \<^verbatim>\<open>float\<close> is only ever copied by the engine, never computed
  with, so it is carried as its 32-bit pattern (\<^verbatim>\<open>0.0f\<close> is the pattern 0). The
  enumerations of event kinds, commands and controls are kept as their ordinals.
\<close>

type_synonym nframes_t = "32 word"
type_synonym float = "32 word"
type_synonym int8_t = "8 word"
type_synonym type_t = nat
type_synonym command_t = nat
type_synonym control_t = nat

record Event =
  Type :: type_t
  Command :: command_t
  Control :: control_t
  Value :: float
  Instance :: int8_t
  FragmentPos :: nframes_t

subsection \<open>The bounded queue\<close>

text \<open>
  Modelled from the spec: the class \<^verbatim>\<open>RingBuffer\<close> (its header is not part of
  \<^verbatim>\<open>engine.cpp\<close>). A queue of fixed capacity, the number of its slots, with a read and
  a write cursor that only advance and address the slot at their value modulo the
  capacity. The write region is the free capacity and the read region the unread
  elements, each as at most two contiguous spans: the first from the cursor's slot up
  to the end of the storage, the second from slot 0.
\<close>

record 'a RingBuffer =
  slots :: "'a list"
  read_cursor :: nat
  write_cursor :: nat

text \<open>A region: the start slot and the length of each of the two spans.\<close>

record rw_vector =
  buf :: "nat list"
  len :: "nat list"

definition read_space :: "'a RingBuffer \<Rightarrow> nat" where
  "read_space q = write_cursor q - read_cursor q"

definition write_space :: "'a RingBuffer \<Rightarrow> nat" where
  "write_space q = length (slots q) - (write_cursor q - read_cursor q)"

definition get_read_vector :: "'a RingBuffer \<Rightarrow> rw_vector" where
  "get_read_vector q =
     (let r = read_cursor q mod length (slots q);
          n0 = min (read_space q) (length (slots q) - r)
      in \<lparr>buf = [r, 0], len = [n0, read_space q - n0]\<rparr>)"

definition get_write_vector :: "'a RingBuffer \<Rightarrow> rw_vector" where
  "get_write_vector q =
     (let w = write_cursor q mod length (slots q);
          n0 = min (write_space q) (length (slots q) - w)
      in \<lparr>buf = [w, 0], len = [n0, write_space q - n0]\<rparr>)"

definition increment_read_ptr :: "nat \<Rightarrow> 'a RingBuffer \<Rightarrow> 'a RingBuffer" where
  "increment_read_ptr n q = q\<lparr>read_cursor := read_cursor q + n\<rparr>"

definition increment_write_ptr :: "nat \<Rightarrow> 'a RingBuffer \<Rightarrow> 'a RingBuffer" where
  "increment_write_ptr n q = q\<lparr>write_cursor := write_cursor q + n\<rparr>"

text \<open>
  The single-element write of the administrative path: it returns the number of
  elements written, 0 when the queue is full (the element is dropped).
\<close>

definition rb_write :: "'a RingBuffer \<Rightarrow> 'a \<Rightarrow> 'a RingBuffer \<times> nat" where
  "rb_write q x =
     (if write_space q = 0 then (q, 0)
      else (increment_write_ptr 1
              (q\<lparr>slots := (slots q)[write_cursor q mod length (slots q) := x]\<rparr>), 1))"

text \<open>The unread elements, oldest first.\<close>

definition pending :: "'a RingBuffer \<Rightarrow> 'a list" where
  "pending q = map (\<lambda>i. slots q ! (i mod length (slots q))) [read_cursor q ..< write_cursor q]"

definition rb_inv :: "'a RingBuffer \<Rightarrow> bool" where
  "rb_inv q \<longleftrightarrow> 0 < length (slots q) \<and> read_cursor q \<le> write_cursor q
     \<and> write_cursor q - read_cursor q \<le> length (slots q)"

subsection \<open>Processing instances, the event generator and the engine\<close>

text \<open>
  Modelled from the spec: the class \<^verbatim>\<open>Looper\<close> (the processing instance), of which
  the engine uses the constructor from a driver, an index and a channel count, the
  activation call, \<^verbatim>\<open>run\<close>, \<^verbatim>\<open>do_event\<close> and \<^verbatim>\<open>get_control_value\<close>. What an
  instance does with a call is outside the engine, so an instance is the arguments it
  was constructed with and the calls it has received, in order. Whether activation
  succeeds and what a control reads are parameters of the functions that ask.
\<close>

datatype LooperCall = Run nframes_t nframes_t | DoEvent Event

record Looper =
  index :: "32 word"
  chans :: "32 word"
  calls :: "LooperCall list"

definition new_Looper :: "32 word \<Rightarrow> 32 word \<Rightarrow> Looper" where
  "new_Looper idx ch = \<lparr>index = idx, chans = ch, calls = []\<rparr>"

definition run :: "nframes_t \<Rightarrow> nframes_t \<Rightarrow> Looper \<Rightarrow> Looper" where
  "run offset nframes l = l\<lparr>calls := calls l @ [Run offset nframes]\<rparr>"

definition do_event :: "Event \<Rightarrow> Looper \<Rightarrow> Looper" where
  "do_event ev l = l\<lparr>calls := calls l @ [DoEvent ev]\<rparr>"

text \<open>
  Modelled from the spec: the class \<^verbatim>\<open>EventGenerator\<close> (the event stamping service).
  It reads the clock, so its state is the frame counts it was given by
  \<^verbatim>\<open>updateFragmentTime\<close>, in order, and the event that \<^verbatim>\<open>createEvent\<close> returns is a
  parameter of the push functions.
\<close>

record EventGenerator =
  fragment_updates :: "nframes_t list"

definition updateFragmentTime :: "nframes_t \<Rightarrow> EventGenerator \<Rightarrow> EventGenerator" where
  "updateFragmentTime nframes g = g\<lparr>fragment_updates := fragment_updates g @ [nframes]\<rparr>"

text \<open>
  Modelled from the spec: the administrative events (\<^verbatim>\<open>EventNonRT\<close> and its
  subclasses), a closed family, and the completion calls of the control front end
  (\<^verbatim>\<open>ControlOSC\<close>), recorded in the order they are made. The \<^verbatim>\<open>int\<close> fields of a
  loop configuration event are 32-bit.
\<close>

datatype ConfigLoopType = Add | Remove

datatype EventNonRT =
    GetParamEvent control_t int8_t
  | ConfigUpdateEvent
  | ConfigLoopEvent ConfigLoopType "32 word" "32 word"
  | PingEvent string string
  | RegisterConfigEvent

datatype OscCall =
    finish_get_event control_t int8_t float
  | finish_update_event
  | send_pingack string string
  | finish_register_event

text \<open>The signals the engine emits; \<^verbatim>\<open>LoopAdded\<close> carries an \<^verbatim>\<open>int\<close>.\<close>

datatype Signal = LoopAdded int | LoopRemoved

record Engine =
  instances :: "Looper list"
  event_queue :: "Event RingBuffer"
  event_generator :: EventGenerator
  nonrt_event_queue :: "EventNonRT RingBuffer"
  def_channel_cnt :: "32 word"
  emitted :: "Signal list"
  osc_calls :: "OscCall list"

section \<open>The instance registry\<close>

text \<open>
  \<^verbatim>\<open>Engine::add_loop\<close>. The new instance is constructed with the registry size
  converted to \<^verbatim>\<open>unsigned int\<close>, and the size converted to \<^verbatim>\<open>int\<close> is what
  \<^verbatim>\<open>LoopAdded\<close> carries. \<open>activate\<close> is the outcome of the activation call.
\<close>

definition add_loop :: "(Looper \<Rightarrow> bool) \<Rightarrow> 32 word \<Rightarrow> Engine \<Rightarrow> bool \<times> Engine" where
  "add_loop activate ch e =
     (let instance = new_Looper (word_of_nat (length (instances e))) ch;
          n = sint (word_of_nat (length (instances e)) :: 32 word)
      in if \<not> activate instance then (False, e)
         else (True, e\<lparr>instances := instances e @ [instance],
                        emitted := emitted e @ [LoopAdded n]\<rparr>))"

text \<open>
  \<^verbatim>\<open>Engine::remove_loop\<close>. The \<^verbatim>\<open>unsigned int\<close> index is compared with the registry
  size as an unsigned number.
\<close>

definition remove_loop :: "32 word \<Rightarrow> Engine \<Rightarrow> bool \<times> Engine" where
  "remove_loop idx e =
     (if unat idx < length (instances e)
      then (True, e\<lparr>instances := take (unat idx) (instances e) @ drop (Suc (unat idx)) (instances e),
                     emitted := emitted e @ [LoopRemoved]\<rparr>)
      else (False, e))"

text \<open>
  \<^verbatim>\<open>Engine::get_control_value\<close>. The \<^verbatim>\<open>int8_t\<close> index is compared, as a signed number,
  with 0 and with the registry size converted to \<^verbatim>\<open>int\<close>. \<open>looper_value\<close> is what an
  instance reads for a control.
\<close>

definition get_control_value ::
    "(Looper \<Rightarrow> control_t \<Rightarrow> float) \<Rightarrow> control_t \<Rightarrow> int8_t \<Rightarrow> Engine \<Rightarrow> float" where
  "get_control_value looper_value ctrl inst e =
     (if 0 \<le> sint inst \<and> sint inst < sint (word_of_nat (length (instances e)) :: 32 word)
      then looper_value (instances e ! nat (sint inst)) ctrl
      else 0)"

section \<open>Pushing events\<close>

text \<open>
  \<^verbatim>\<open>Engine::push_command_event\<close> and \<^verbatim>\<open>Engine::push_control_event\<close>. \<open>created\<close> is
  the event returned by \<^verbatim>\<open>createEvent\<close>; it is copied into the first slot of the
  write region and its fields are then assigned.
\<close>

definition push_command_event ::
    "Event \<Rightarrow> type_t \<Rightarrow> command_t \<Rightarrow> int8_t \<Rightarrow> Engine \<Rightarrow> bool \<times> Engine" where
  "push_command_event created ty cmd inst e =
     (let vec = get_write_vector (event_queue e)
      in if len vec ! 0 = 0 then (False, e)
         else
           (let evt = created\<lparr>Type := ty, Command := cmd, Instance := inst\<rparr>;
                q = event_queue e;
                q1 = q\<lparr>slots := (slots q)[buf vec ! 0 := evt]\<rparr>
            in (True, e\<lparr>event_queue := increment_write_ptr 1 q1\<rparr>)))"

definition push_control_event ::
    "Event \<Rightarrow> type_t \<Rightarrow> control_t \<Rightarrow> float \<Rightarrow> int8_t \<Rightarrow> Engine \<Rightarrow> bool \<times> Engine" where
  "push_control_event created ty ctrl val inst e =
     (let vec = get_write_vector (event_queue e)
      in if len vec ! 0 = 0 then (False, e)
         else
           (let evt = created\<lparr>Type := ty, Control := ctrl, Value := val, Instance := inst\<rparr>;
                q = event_queue e;
                q1 = q\<lparr>slots := (slots q)[buf vec ! 0 := evt]\<rparr>
            in (True, e\<lparr>event_queue := increment_write_ptr 1 q1\<rparr>)))"

text \<open>
  \<^verbatim>\<open>Engine::push_nonrt_event\<close>: the count returned by the queue's write is not looked
  at. Signalling the condition variable changes no state of the model.
\<close>

definition push_nonrt_event :: "EventNonRT \<Rightarrow> Engine \<Rightarrow> bool \<times> Engine" where
  "push_nonrt_event event e =
     (let (q, written) = rb_write (nonrt_event_queue e) event
      in (True, e\<lparr>nonrt_event_queue := q\<rparr>))"

section \<open>The real-time dispatch\<close>

text \<open>
  The loop over the instances for one event, inside \<^verbatim>\<open>Engine::process\<close>: every
  instance runs the frames before the event, and the event is given to the instance
  when it is addressed to all (-1) or to the position \<open>m\<close> of the instance. \<open>m\<close> is an
  \<^verbatim>\<open>int\<close> counting up from 0; the \<^verbatim>\<open>int8_t\<close> address is compared with it as a signed
  number.
\<close>

fun instances_loop ::
    "Event \<Rightarrow> nframes_t \<Rightarrow> nframes_t \<Rightarrow> int \<Rightarrow> Looper list \<Rightarrow> Looper list" where
  "instances_loop evt usedframes doframes m [] = []"
| "instances_loop evt usedframes doframes m (i # rest) =
     (let i1 = run usedframes doframes i;
          i2 = (if Instance evt = - 1 \<or> sint (Instance evt) = m then do_event evt i1 else i1)
      in i2 # instances_loop evt usedframes doframes (m + 1) rest)"

text \<open>
  What the body of the event loop does with an event once it is read, from the frames
  used so far and the instances: an event before the frames already used, or at or
  after the end of the buffer, is passed over; otherwise the instances run up to the
  event and the frames used become the event's position.
\<close>

definition event_step ::
    "nframes_t \<Rightarrow> Event \<Rightarrow> nframes_t \<times> Looper list \<Rightarrow> nframes_t \<times> Looper list" where
  "event_step nframes evt st =
     (let usedframes = fst st; insts = snd st; fragpos = FragmentPos evt
      in if fragpos < usedframes \<or> fragpos \<ge> nframes then (usedframes, insts)
         else
           (let doframes = fragpos - usedframes
            in (usedframes + doframes, instances_loop evt usedframes doframes 0 insts)))"

text \<open>
  The loop over the events of the read region. \<open>vecn\<close> is the span being read, \<open>n\<close>
  the position in it and \<open>num\<close> its length; after the last element of the first span
  the loop moves on to the second. The event is read from the slot at the span's start
  plus \<open>n\<close>. The result is the frames used and the instances.
\<close>

function event_loop ::
    "nframes_t \<Rightarrow> Event list \<Rightarrow> rw_vector \<Rightarrow> nat \<Rightarrow> nat \<Rightarrow> nat \<Rightarrow> nframes_t \<times> Looper list
      \<Rightarrow> nframes_t \<times> Looper list" where
  "event_loop nframes sl vec vecn n num st =
     (if n < num then
        (let evt = sl ! (buf vec ! vecn + n);
             n1 = n + 1;
             wrap = (n1 = num \<and> vecn = 0);
             vecn' = (if wrap then vecn + 1 else vecn);
             n' = (if wrap then 0 else n1);
             num' = (if wrap then len vec ! 1 else num)
         in event_loop nframes sl vec vecn' n' num' (event_step nframes evt st))
      else st)"
  by pat_completeness auto
termination
  by (relation "measure (\<lambda>(nframes, sl, vec, vecn, n, num, st).
        (if vecn = 0 then len vec ! 1 + 1 else 0) + (num - n))") auto

declare event_loop.simps [simp del]

text \<open>
  \<^verbatim>\<open>Engine::process\<close>. \<open>locked\<close> is whether the tentative lock on the registry was
  acquired.
\<close>

definition process :: "bool \<Rightarrow> nframes_t \<Rightarrow> Engine \<Rightarrow> Engine" where
  "process locked nframes e =
     (let vec = get_read_vector (event_queue e);
          e1 = e\<lparr>event_generator := updateFragmentTime nframes (event_generator e)\<rparr>
      in if \<not> locked then e1
         else
           (let num = len vec ! 0
            in if num > 0 then
                 (let (usedframes, insts) =
                        event_loop nframes (slots (event_queue e1)) vec 0 0 num (0, instances e1);
                      e2 = e1\<lparr>event_queue :=
                                increment_read_ptr (len vec ! 0 + len vec ! 1) (event_queue e1)\<rparr>
                  in e2\<lparr>instances := map (run usedframes (nframes - usedframes)) insts\<rparr>)
               else e1\<lparr>instances := map (run 0 nframes) (instances e1)\<rparr>))"

section \<open>The worker's dispatch of one administrative event\<close>

text \<open>
  The body of the inner loop of \<^verbatim>\<open>Engine::mainloop\<close> for one event read from the
  administrative queue.
\<close>

definition mainloop_event ::
    "(Looper \<Rightarrow> control_t \<Rightarrow> float) \<Rightarrow> (Looper \<Rightarrow> bool) \<Rightarrow> EventNonRT \<Rightarrow> Engine \<Rightarrow> Engine" where
  "mainloop_event looper_value activate event e =
     (case event of
        GetParamEvent ctrl inst \<Rightarrow>
          e\<lparr>osc_calls := osc_calls e
               @ [finish_get_event ctrl inst (get_control_value looper_value ctrl inst e)]\<rparr>
      | ConfigUpdateEvent \<Rightarrow> e\<lparr>osc_calls := osc_calls e @ [finish_update_event]\<rparr>
      | ConfigLoopEvent ty channels idx \<Rightarrow>
          (if ty = Add
           then snd (add_loop activate (if channels = 0 then def_channel_cnt e else channels) e)
           else if ty = Remove
           then snd (remove_loop
                  (if idx = - 1 then word_of_nat (length (instances e)) - 1 else idx) e)
           else e)
      | PingEvent ret_url ret_path \<Rightarrow> e\<lparr>osc_calls := osc_calls e @ [send_pingack ret_url ret_path]\<rparr>
      | RegisterConfigEvent \<Rightarrow> e\<lparr>osc_calls := osc_calls e @ [finish_register_event]\<rparr>)"

section \<open>Lifecycle\<close>

text \<open>
  \<^verbatim>\<open>Engine::cleanup\<close> works on the engine's owning pointers. A pointer is an address,
  0 the null pointer; the store is the set of addresses of live objects. Deleting an
  address that is not live (deleted before) has no defined behaviour and is an error of
  the model.
\<close>

type_synonym addr = nat

datatype error = InvalidDelete addr

record EnginePtrs =
  ok :: bool
  osc :: addr
  event_generator_ptr :: addr
  event_queue_ptr :: addr
  nonrt_event_queue_ptr :: addr
  live :: "addr set"

definition delete :: "addr \<Rightarrow> addr set \<Rightarrow> error + addr set" where
  "delete p h = (if p \<in> h then Inr (h - {p}) else Inl (InvalidDelete p))"

text \<open>
  The three blocks of \<^verbatim>\<open>cleanup\<close>, in order. The first deletes the control front end
  and leaves the pointer as it is; the other two delete the object and set the pointer
  to 0.
\<close>

definition cleanup_osc :: "EnginePtrs \<Rightarrow> error + EnginePtrs" where
  "cleanup_osc s =
     (if osc s \<noteq> 0
      then (case delete (osc s) (live s) of
              Inl err \<Rightarrow> Inl err
            | Inr h \<Rightarrow> Inr (s\<lparr>live := h\<rparr>))
      else Inr s)"

definition cleanup_event_queue :: "EnginePtrs \<Rightarrow> error + EnginePtrs" where
  "cleanup_event_queue s =
     (if event_queue_ptr s \<noteq> 0
      then (case delete (event_queue_ptr s) (live s) of
              Inl err \<Rightarrow> Inl err
            | Inr h \<Rightarrow> Inr (s\<lparr>live := h, event_queue_ptr := 0\<rparr>))
      else Inr s)"

definition cleanup_event_generator :: "EnginePtrs \<Rightarrow> error + EnginePtrs" where
  "cleanup_event_generator s =
     (if event_generator_ptr s \<noteq> 0
      then (case delete (event_generator_ptr s) (live s) of
              Inl err \<Rightarrow> Inl err
            | Inr h \<Rightarrow> Inr (s\<lparr>live := h, event_generator_ptr := 0\<rparr>))
      else Inr s)"

definition cleanup :: "EnginePtrs \<Rightarrow> error + EnginePtrs" where
  "cleanup s =
     (case cleanup_osc s of
        Inl err \<Rightarrow> Inl err
      | Inr s1 \<Rightarrow>
         (case cleanup_event_queue s1 of
            Inl err \<Rightarrow> Inl err
          | Inr s2 \<Rightarrow>
             (case cleanup_event_generator s2 of
                Inl err \<Rightarrow> Inl err
              | Inr s3 \<Rightarrow> Inr (s3\<lparr>ok := False\<rparr>))))"

section \<open>Call logs\<close>

text \<open>
  An event is addressed to the instance at position \<open>m\<close> when its target is -1 (all
  instances) or \<open>m\<close>.
\<close>

definition addressed :: "nat \<Rightarrow> Event \<Rightarrow> bool" where
  "addressed m evt \<longleftrightarrow> Instance evt = - 1 \<or> sint (Instance evt) = int m"

text \<open>
  The calls the specification expects an instance at position \<open>m\<close> to receive in one
  buffer of \<open>nframes\<close> frames, from the frames used so far and the events still to
  come: for every event, a run from the frames used up to the event's position and then
  the event if it is addressed to the instance; at the end a run of the rest.
\<close>

fun timeline :: "nat \<Rightarrow> nframes_t \<Rightarrow> nframes_t \<Rightarrow> Event list \<Rightarrow> LooperCall list" where
  "timeline m nframes usedframes [] = [Run usedframes (nframes - usedframes)]"
| "timeline m nframes usedframes (evt # es) =
     Run usedframes (FragmentPos evt - usedframes)
       # (if addressed m evt then [DoEvent evt] else [])
       @ timeline m nframes (FragmentPos evt) es"

text \<open>The start and frame count of the runs in a call log, and the events in it.\<close>

fun run_spans :: "LooperCall list \<Rightarrow> (nframes_t \<times> nframes_t) list" where
  "run_spans [] = []"
| "run_spans (Run offset n # cs) = (offset, n) # run_spans cs"
| "run_spans (DoEvent evt # cs) = run_spans cs"

fun applied_events :: "LooperCall list \<Rightarrow> Event list" where
  "applied_events [] = []"
| "applied_events (Run offset n # cs) = applied_events cs"
| "applied_events (DoEvent evt # cs) = evt # applied_events cs"

text \<open>The calls the instance at position \<open>m\<close> has received since \<open>before\<close>.\<close>

definition new_calls :: "Looper list \<Rightarrow> Looper list \<Rightarrow> nat \<Rightarrow> LooperCall list" where
  "new_calls before after m = drop (length (calls (before ! m))) (calls (after ! m))"

section \<open>Example states\<close>

text \<open>Small concrete states on which the properties below are evaluated.\<close>

definition ev0 :: Event where
  "ev0 = \<lparr>Type = 0, Command = 0, Control = 0, Value = 0, Instance = 0, FragmentPos = 0\<rparr>"

definition ex_engine :: "Looper list \<Rightarrow> Event RingBuffer \<Rightarrow> Engine" where
  "ex_engine insts q =
     \<lparr>instances = insts, event_queue = q, event_generator = \<lparr>fragment_updates = []\<rparr>,
      nonrt_event_queue = \<lparr>slots = [ConfigUpdateEvent], read_cursor = 0, write_cursor = 0\<rparr>,
      def_channel_cnt = 2, emitted = [], osc_calls = []\<rparr>"

definition ex_looper :: "32 word \<Rightarrow> Looper" where
  "ex_looper k = new_Looper k 2"

definition full_nonrt_engine :: Engine where
  "full_nonrt_engine =
     \<lparr>instances = [],
      event_queue = \<lparr>slots = replicate 1024 ev0, read_cursor = 0, write_cursor = 0\<rparr>,
      event_generator = \<lparr>fragment_updates = []\<rparr>,
      nonrt_event_queue =
        \<lparr>slots = replicate 1024 ConfigUpdateEvent, read_cursor = 0, write_cursor = 1024\<rparr>,
      def_channel_cnt = 2, emitted = [], osc_calls = []\<rparr>"

definition initialized_ptrs :: EnginePtrs where
  "initialized_ptrs =
     \<lparr>ok = True, osc = 4, event_generator_ptr = 1, event_queue_ptr = 2,
      nonrt_event_queue_ptr = 3, live = {1, 2, 3, 4}\<rparr>"

definition ev_at :: "nframes_t \<Rightarrow> int8_t \<Rightarrow> Event" where
  "ev_at pos inst = ev0\<lparr>Instance := inst, FragmentPos := pos\<rparr>"

text \<open>
  A queue of four slots whose unread events wrap around the end of the storage: they
  start at slot 3 and go on from slot 0.
\<close>

definition ex_queue :: "Event \<Rightarrow> Event \<Rightarrow> Event \<Rightarrow> nat \<Rightarrow> Event RingBuffer" where
  "ex_queue a b c w = \<lparr>slots = [b, c, ev0, a], read_cursor = 3, write_cursor = w\<rparr>"

definition ex_sorted_engine :: Engine where
  "ex_sorted_engine =
     ex_engine [ex_looper 0, ex_looper 1] (ex_queue (ev_at 10 (- 1)) (ev_at 20 1) (ev_at 30 0) 6)"

definition ex_stale_engine :: Engine where
  "ex_stale_engine =
     ex_engine [ex_looper 0] (ex_queue (ev_at 20 (- 1)) (ev_at 10 0) (ev_at 100 0) 6)"

section \<open>Properties of the queue\<close>

lemma mod_neq_between:
  fixes i w c :: nat
  assumes "i < w" "w - i < c"
  shows "i mod c \<noteq> w mod c"
proof
  assume "i mod c = w mod c"
  then have "c dvd w - i"
    using assms(1) by (metis less_imp_le_nat mod_eq_dvd_iff_nat)
  moreover have "0 < w - i" using assms(1) by simp
  ultimately show False using assms(2) by (meson nat_dvd_not_less)
qed

lemma write_vector_len0:
  "len (get_write_vector q) ! 0 = 0 \<longleftrightarrow> write_space q = 0"
proof -
  have "write_space q \<noteq> 0 \<Longrightarrow> 0 < length (slots q)"
    by (cases "slots q") (simp_all add: write_space_def)
  then have "write_space q \<noteq> 0 \<Longrightarrow> 0 < length (slots q) - write_cursor q mod length (slots q)"
    by simp
  then show ?thesis
    by (cases "write_space q = 0") (simp_all add: get_write_vector_def Let_def min_def)
qed

lemma write_vector_buf0:
  "buf (get_write_vector q) ! 0 = write_cursor q mod length (slots q)"
  by (simp add: get_write_vector_def Let_def)

lemma pending_store:
  assumes "rb_inv q" "write_space q \<noteq> 0"
  shows "pending (increment_write_ptr (Suc 0) (q\<lparr>slots := (slots q)[write_cursor q mod length (slots q) := x]\<rparr>))
         = pending q @ [x]"
proof -
  let ?c = "length (slots q)"
  let ?w = "write_cursor q"
  have c: "0 < ?c" and le: "read_cursor q \<le> ?w" using assms(1) by (simp_all add: rb_inv_def)
  have lt: "?w - read_cursor q < ?c" using assms(2) by (simp add: write_space_def)
  have old: "(slots q)[?w mod ?c := x] ! (i mod ?c) = slots q ! (i mod ?c)"
    if "i \<in> set [read_cursor q ..< ?w]" for i
  proof -
    have "i < ?w" "?w - i < ?c" using that lt by auto
    then have "i mod ?c \<noteq> ?w mod ?c" by (rule mod_neq_between)
    then show ?thesis by simp
  qed
  have new: "(slots q)[?w mod ?c := x] ! (?w mod ?c) = x"
    using c by simp
  have "[read_cursor q ..< ?w + 1] = [read_cursor q ..< ?w] @ [?w]"
    using le by simp
  then show ?thesis
    using old new by (simp add: pending_def increment_write_ptr_def)
qed

lemma read_vector_simps:
  "buf (get_read_vector q) ! 0 = read_cursor q mod length (slots q)"
  "buf (get_read_vector q) ! Suc 0 = 0"
  "len (get_read_vector q) ! 0
     = min (read_space q) (length (slots q) - read_cursor q mod length (slots q))"
  "len (get_read_vector q) ! Suc 0
     = read_space q - min (read_space q) (length (slots q) - read_cursor q mod length (slots q))"
  by (simp_all add: get_read_vector_def Let_def)

lemma read_vector_total:
  "len (get_read_vector q) ! 0 + len (get_read_vector q) ! Suc 0 = read_space q"
  by (simp add: read_vector_simps)

lemma read_vector_len0:
  assumes "rb_inv q"
  shows "len (get_read_vector q) ! 0 = 0 \<longleftrightarrow> read_space q = 0"
proof -
  have "0 < length (slots q) - read_cursor q mod length (slots q)"
    using assms by (simp add: rb_inv_def)
  then show ?thesis by (simp add: read_vector_simps min_def)
qed

lemma mod_span_first:
  fixes r c k :: nat
  assumes "r mod c + k < c"
  shows "(r + k) mod c = r mod c + k"
proof -
  have "(r + k) mod c = (r mod c + k) mod c" by (simp only: mod_add_left_eq)
  also have "\<dots> = r mod c + k" using assms by (rule mod_less)
  finally show ?thesis .
qed

lemma mod_span_second:
  fixes r c k :: nat
  assumes "0 < c" "k < c"
  shows "(r + (c - r mod c) + k) mod c = k"
proof -
  have lt: "r mod c < c" using assms(1) by simp
  have "r = (r div c) * c + r mod c" by simp
  then have "r + (c - r mod c) = (r div c) * c + (r mod c + (c - r mod c))" by arith
  also have "r mod c + (c - r mod c) = c" using lt by arith
  finally have "r + (c - r mod c) + k = k + (Suc (r div c)) * c" by simp
  then have "(r + (c - r mod c) + k) mod c = (k + (Suc (r div c)) * c) mod c" by (rule arg_cong)
  also have "\<dots> = k mod c" by (rule mod_mult_self1)
  also have "\<dots> = k" using assms(2) by (rule mod_less)
  finally show ?thesis .
qed

lemma map_upt_shift:
  "map f [a ..< a + n] = map (\<lambda>k. f (a + k)) [0 ..< n]"
proof -
  have "[a ..< a + n] = map (\<lambda>k. a + k) [0 ..< n]"
    by (induction n) simp_all
  then show ?thesis by (simp only: map_map comp_def)
qed

lemma pending_read_vector:
  assumes "rb_inv q"
  shows "pending q =
           map (\<lambda>k. slots q ! (buf (get_read_vector q) ! 0 + k)) [0 ..< len (get_read_vector q) ! 0]
         @ map (\<lambda>k. slots q ! (buf (get_read_vector q) ! Suc 0 + k))
             [0 ..< len (get_read_vector q) ! Suc 0]"
proof -
  define c where "c = length (slots q)"
  define r where "r = read_cursor q"
  define n0 where "n0 = min (read_space q) (c - r mod c)"
  define n1 where "n1 = read_space q - n0"
  have c: "0 < c" and le: "r \<le> write_cursor q" and av: "read_space q \<le> c"
    using assms by (simp_all add: rb_inv_def read_space_def c_def r_def)
  have w: "write_cursor q = r + n0 + n1"
    using le by (simp add: read_space_def n0_def n1_def r_def)
  have split: "[r ..< r + n0 + n1] = [r ..< r + n0] @ [r + n0 ..< r + n0 + n1]"
    by (rule upt_add_eq_append) simp
  have first: "map (\<lambda>i. slots q ! (i mod c)) [r ..< r + n0]
                 = map (\<lambda>k. slots q ! (r mod c + k)) [0 ..< n0]"
  proof -
    have "(r + k) mod c = r mod c + k" if "k < n0" for k
    proof (rule mod_span_first)
      have "k < c - r mod c" using that by (simp add: n0_def)
      then show "r mod c + k < c" by arith
    qed
    then show ?thesis by (simp add: map_upt_shift)
  qed
  have second: "map (\<lambda>i. slots q ! (i mod c)) [r + n0 ..< r + n0 + n1]
                 = map (\<lambda>k. slots q ! (0 + k)) [0 ..< n1]"
  proof (cases "n1 = 0")
    case True
    then show ?thesis by simp
  next
    case False
    then have n0: "n0 = c - r mod c" by (simp add: n0_def n1_def min_def split: if_splits)
    have "(r + n0 + k) mod c = k" if "k < n1" for k
    proof -
      have "k < c" using that av by (simp add: n1_def)
      with c show ?thesis unfolding n0 by (rule mod_span_second)
    qed
    then show ?thesis by (simp add: map_upt_shift)
  qed
  have "pending q = map (\<lambda>i. slots q ! (i mod c)) [r ..< r + n0 + n1]"
    by (simp only: pending_def c_def r_def w [unfolded r_def])
  also have "\<dots> = map (\<lambda>k. slots q ! (r mod c + k)) [0 ..< n0]
                   @ map (\<lambda>k. slots q ! (0 + k)) [0 ..< n1]"
    by (simp only: split map_append first second)
  finally show ?thesis
    by (simp only: read_vector_simps n0_def n1_def c_def r_def)
qed

section \<open>Pushing real-time events\<close>

lemma push_command_full:
  "write_space (event_queue e) = 0 \<Longrightarrow> push_command_event c ty cmd i e = (False, e)"
  by (simp add: push_command_event_def write_vector_len0)

lemma push_control_full:
  "write_space (event_queue e) = 0 \<Longrightarrow> push_control_event c ty ctl v i e = (False, e)"
  by (simp add: push_control_event_def write_vector_len0)

lemma push_command_stamped:
  assumes "write_space (event_queue e) \<noteq> 0"
  shows "push_command_event c ty cmd i e =
     (True, e\<lparr>event_queue := increment_write_ptr 1
        ((event_queue e)\<lparr>slots := (slots (event_queue e))
            [write_cursor (event_queue e) mod length (slots (event_queue e))
               := c\<lparr>Type := ty, Command := cmd, Instance := i\<rparr>]\<rparr>)\<rparr>)"
  using assms by (simp add: push_command_event_def write_vector_len0 write_vector_buf0 Let_def)

lemma push_control_stamped:
  assumes "write_space (event_queue e) \<noteq> 0"
  shows "push_control_event c ty ctl v i e =
     (True, e\<lparr>event_queue := increment_write_ptr 1
        ((event_queue e)\<lparr>slots := (slots (event_queue e))
            [write_cursor (event_queue e) mod length (slots (event_queue e))
               := c\<lparr>Type := ty, Control := ctl, Value := v, Instance := i\<rparr>]\<rparr>)\<rparr>)"
  using assms by (simp add: push_control_event_def write_vector_len0 write_vector_buf0 Let_def)

lemma cursors_store:
  "write_cursor (increment_write_ptr (Suc 0) (q\<lparr>slots := sl\<rparr>)) = Suc (write_cursor q)"
  "read_cursor (increment_write_ptr (Suc 0) (q\<lparr>slots := sl\<rparr>)) = read_cursor q"
  by (simp_all add: increment_write_ptr_def)

text \<open>The pushes keep the invariant of the queue.\<close>

lemma rb_inv_push_command:
  assumes "rb_inv (event_queue e)"
  shows "rb_inv (event_queue (snd (push_command_event c ty cmd i e)))"
proof (cases "write_space (event_queue e) = 0")
  case True
  then show ?thesis using assms by (simp add: push_command_full)
next
  case False
  then show ?thesis
    using assms
    by (simp add: push_command_stamped rb_inv_def write_space_def increment_write_ptr_def)
qed

lemma rb_inv_push_control:
  assumes "rb_inv (event_queue e)"
  shows "rb_inv (event_queue (snd (push_control_event c ty ctl v i e)))"
proof (cases "write_space (event_queue e) = 0")
  case True
  then show ?thesis using assms by (simp add: push_control_full)
next
  case False
  then show ?thesis
    using assms
    by (simp add: push_control_stamped rb_inv_def write_space_def increment_write_ptr_def)
qed

text \<open>
  C4. When the free write region of the real-time queue is empty, both push functions
  return false and leave the engine, with the queue and every queued event, as it was.
  When it is not empty, both return true, the write cursor advances by one, the read
  cursor stays, and the unread events are the ones before followed by the one stamped
  event with the fields given to the push.
\<close>

theorem push_event_full_or_one:
  assumes "rb_inv (event_queue e)"
  shows "(write_space (event_queue e) = 0 \<longrightarrow>
            push_command_event c ty cmd i e = (False, e)
          \<and> push_control_event c ty ctl v i e = (False, e))
       \<and> (write_space (event_queue e) \<noteq> 0 \<longrightarrow>
            fst (push_command_event c ty cmd i e) = True
          \<and> fst (push_control_event c ty ctl v i e) = True
          \<and> write_cursor (event_queue (snd (push_command_event c ty cmd i e)))
              = write_cursor (event_queue e) + 1
          \<and> write_cursor (event_queue (snd (push_control_event c ty ctl v i e)))
              = write_cursor (event_queue e) + 1
          \<and> read_cursor (event_queue (snd (push_command_event c ty cmd i e)))
              = read_cursor (event_queue e)
          \<and> read_cursor (event_queue (snd (push_control_event c ty ctl v i e)))
              = read_cursor (event_queue e)
          \<and> pending (event_queue (snd (push_command_event c ty cmd i e)))
              = pending (event_queue e) @ [c\<lparr>Type := ty, Command := cmd, Instance := i\<rparr>]
          \<and> pending (event_queue (snd (push_control_event c ty ctl v i e)))
              = pending (event_queue e)
                @ [c\<lparr>Type := ty, Control := ctl, Value := v, Instance := i\<rparr>])"
proof (cases "write_space (event_queue e) = 0")
  case True
  then show ?thesis by (simp add: push_command_full push_control_full)
next
  case False
  then show ?thesis
    using assms
    by (simp add: push_command_stamped push_control_stamped pending_store cursors_store)
qed

theorem push_event_full_or_one_witness:
  "rb_inv (event_queue (ex_engine [] \<lparr>slots = [ev0, ev0], read_cursor = 1, write_cursor = 3\<rparr>))
   \<and> write_space (event_queue (ex_engine [] \<lparr>slots = [ev0, ev0], read_cursor = 1, write_cursor = 3\<rparr>)) = 0
   \<and> push_command_event ev0 1 2 (- 1) (ex_engine [] \<lparr>slots = [ev0, ev0], read_cursor = 1, write_cursor = 3\<rparr>)
       = (False, ex_engine [] \<lparr>slots = [ev0, ev0], read_cursor = 1, write_cursor = 3\<rparr>)
   \<and> push_control_event ev0 1 2 7 (- 1) (ex_engine [] \<lparr>slots = [ev0, ev0], read_cursor = 1, write_cursor = 3\<rparr>)
       = (False, ex_engine [] \<lparr>slots = [ev0, ev0], read_cursor = 1, write_cursor = 3\<rparr>)
   \<and> rb_inv (event_queue (ex_engine [] \<lparr>slots = [ev0, ev0], read_cursor = 1, write_cursor = 2\<rparr>))
   \<and> write_space (event_queue (ex_engine [] \<lparr>slots = [ev0, ev0], read_cursor = 1, write_cursor = 2\<rparr>)) \<noteq> 0
   \<and> pending (event_queue (snd (push_command_event ev0 1 2 (- 1)
         (ex_engine [] \<lparr>slots = [ev0, ev0], read_cursor = 1, write_cursor = 2\<rparr>))))
       = [ev0, ev0\<lparr>Type := 1, Command := 2, Instance := - 1\<rparr>]
   \<and> pending (event_queue (snd (push_control_event ev0 1 2 7 (- 1)
         (ex_engine [] \<lparr>slots = [ev0, ev0], read_cursor = 1, write_cursor = 2\<rparr>))))
       = [ev0, ev0\<lparr>Type := 1, Control := 2, Value := 7, Instance := - 1\<rparr>]"
proof -
  let ?full = "ex_engine [] \<lparr>slots = [ev0, ev0], read_cursor = 1, write_cursor = 3\<rparr>"
  let ?part = "ex_engine [] \<lparr>slots = [ev0, ev0], read_cursor = 1, write_cursor = 2\<rparr>"
  have inv: "rb_inv (event_queue ?full)" "rb_inv (event_queue ?part)"
    by (simp_all add: rb_inv_def ex_engine_def)
  have sp: "write_space (event_queue ?full) = 0" "write_space (event_queue ?part) \<noteq> 0"
    by (simp_all add: write_space_def ex_engine_def)
  have pd: "pending (event_queue ?part) = [ev0]"
    by (simp add: pending_def ex_engine_def upt_rec)
  show ?thesis
    using push_event_full_or_one [OF inv(1), of ev0 1 2 "- 1" 2 7]
          push_event_full_or_one [OF inv(2), of ev0 1 2 "- 1" 2 7] inv sp pd
    by simp
qed

section \<open>Pushing administrative events\<close>

lemma full_nonrt_space: "write_space (nonrt_event_queue full_nonrt_engine) = 0"
  by (simp add: full_nonrt_engine_def write_space_def)

text \<open>
  C5 (the code differs). On an administrative queue with no free capacity (1024 slots,
  all unread) \<^verbatim>\<open>push_nonrt_event\<close> leaves the queue as it was, so the event is
  dropped, and still returns true.
\<close>

theorem push_nonrt_event_full_returns_true:
  "write_space (nonrt_event_queue full_nonrt_engine) = 0
   \<and> push_nonrt_event (PingEvent ''url'' ''path'') full_nonrt_engine = (True, full_nonrt_engine)"
  using full_nonrt_space by (simp add: push_nonrt_event_def rb_write_def)

section \<open>The registry operations\<close>

lemma sint_of_nat_32:
  "n < 2 ^ 31 \<Longrightarrow> sint (word_of_nat n :: 32 word) = int n"
proof -
  assume "n < 2 ^ 31"
  then have "int n < 2 ^ 31" by (metis of_nat_less_numeral_power_cancel_iff)
  then have "signed_take_bit 31 (int n) = int n"
    by (simp add: signed_take_bit_int_eq_self)
  then show ?thesis by (simp add: signed_of_nat)
qed

lemma unat_of_nat_32: "n < 2 ^ 31 \<Longrightarrow> unat (word_of_nat n :: 32 word) = n"
  by (simp add: unat_of_nat)

lemma word_of_nat_pred:
  "0 < n \<Longrightarrow> (word_of_nat n - 1 :: 32 word) = word_of_nat (n - 1)"
  by (cases n) simp_all

lemma remove_last:
  assumes "Suc (unat idx) = length (instances e)"
  shows "instances (snd (remove_loop idx e)) = butlast (instances e)"
proof -
  have "unat idx < length (instances e)" using assms by simp
  moreover have "drop (Suc (unat idx)) (instances e) = []" using assms by simp
  moreover have "take (unat idx) (instances e) = butlast (instances e)"
  proof -
    have "unat idx = length (instances e) - 1" using assms by arith
    then show ?thesis by (simp only: butlast_conv_take)
  qed
  ultimately show ?thesis by (simp add: remove_loop_def)
qed

text \<open>
  C7. With fewer than \<open>2 ^ 31\<close> instances: when the activation of the new instance
  fails, \<^verbatim>\<open>add_loop\<close> returns false and the engine (registry and emitted signals) is
  as before; when it succeeds, \<^verbatim>\<open>add_loop\<close> returns true, the registry is the old
  one followed by the new instance, whose index is the old registry size, and
  \<^verbatim>\<open>LoopAdded\<close> with that index is the one signal added.
\<close>

theorem add_loop_atomic:
  assumes "length (instances e) < 2 ^ 31"
  shows "(\<not> activate (new_Looper (word_of_nat (length (instances e))) ch) \<longrightarrow>
            add_loop activate ch e = (False, e))
       \<and> (activate (new_Looper (word_of_nat (length (instances e))) ch) \<longrightarrow>
            fst (add_loop activate ch e) = True
          \<and> instances (snd (add_loop activate ch e))
              = instances e @ [new_Looper (word_of_nat (length (instances e))) ch]
          \<and> unat (index (last (instances (snd (add_loop activate ch e)))))
              = length (instances e)
          \<and> emitted (snd (add_loop activate ch e))
              = emitted e @ [LoopAdded (int (length (instances e)))])"
  using assms
  by (simp add: add_loop_def Let_def sint_of_nat_32 unat_of_nat_32 new_Looper_def)

theorem add_loop_atomic_witness:
  "length (instances (ex_engine [ex_looper 0] \<lparr>slots = [ev0], read_cursor = 0, write_cursor = 0\<rparr>)) < 2 ^ 31
   \<and> add_loop (\<lambda>l. False) 2 (ex_engine [ex_looper 0] \<lparr>slots = [ev0], read_cursor = 0, write_cursor = 0\<rparr>)
       = (False, ex_engine [ex_looper 0] \<lparr>slots = [ev0], read_cursor = 0, write_cursor = 0\<rparr>)
   \<and> fst (add_loop (\<lambda>l. True) 2 (ex_engine [ex_looper 0] \<lparr>slots = [ev0], read_cursor = 0, write_cursor = 0\<rparr>))
   \<and> instances (snd (add_loop (\<lambda>l. True) 2
        (ex_engine [ex_looper 0] \<lparr>slots = [ev0], read_cursor = 0, write_cursor = 0\<rparr>)))
       = [ex_looper 0, ex_looper 1]
   \<and> emitted (snd (add_loop (\<lambda>l. True) 2
        (ex_engine [ex_looper 0] \<lparr>slots = [ev0], read_cursor = 0, write_cursor = 0\<rparr>)))
       = [LoopAdded 1]"
proof -
  let ?e = "ex_engine [ex_looper 0] \<lparr>slots = [ev0], read_cursor = 0, write_cursor = 0\<rparr>"
  have h: "length (instances ?e) < 2 ^ 31" by (simp add: ex_engine_def)
  show ?thesis
    using add_loop_atomic [OF h, of "\<lambda>l. False" 2] add_loop_atomic [OF h, of "\<lambda>l. True" 2]
    by (simp add: ex_engine_def ex_looper_def)
qed

text \<open>
  C8. With fewer than \<open>2 ^ 31\<close> instances: \<^verbatim>\<open>remove_loop\<close> with an index below the
  registry size returns true and the registry loses exactly the instance at that
  position; with an index at or above the size it returns false and the engine is as
  before. The worker, on a remove event with index -1 and a non-empty registry, calls
  \<^verbatim>\<open>remove_loop\<close> with the size minus one, which removes the last instance; on an
  empty registry nothing changes; any other index is passed on as it is.
\<close>

theorem remove_loop_bounds:
  assumes "length (instances e) < 2 ^ 31"
  shows "(unat idx < length (instances e) \<longrightarrow>
            fst (remove_loop idx e) = True
          \<and> instances (snd (remove_loop idx e))
              = take (unat idx) (instances e) @ drop (Suc (unat idx)) (instances e)
          \<and> length (instances (snd (remove_loop idx e))) = length (instances e) - 1)
       \<and> (length (instances e) \<le> unat idx \<longrightarrow> remove_loop idx e = (False, e))
       \<and> (instances e \<noteq> [] \<longrightarrow>
            mainloop_event looper_value activate (ConfigLoopEvent Remove ch (- 1)) e
              = snd (remove_loop (word_of_nat (length (instances e) - 1)) e)
          \<and> instances (mainloop_event looper_value activate (ConfigLoopEvent Remove ch (- 1)) e)
              = butlast (instances e))
       \<and> (instances e = [] \<longrightarrow>
            mainloop_event looper_value activate (ConfigLoopEvent Remove ch (- 1)) e = e)
       \<and> (idx \<noteq> - 1 \<longrightarrow>
            mainloop_event looper_value activate (ConfigLoopEvent Remove ch idx) e
              = snd (remove_loop idx e))"
proof (intro conjI impI)
  assume "unat idx < length (instances e)"
  then show "fst (remove_loop idx e) = True"
    and "instances (snd (remove_loop idx e))
          = take (unat idx) (instances e) @ drop (Suc (unat idx)) (instances e)"
    and "length (instances (snd (remove_loop idx e))) = length (instances e) - 1"
    by (simp_all add: remove_loop_def)
next
  assume "length (instances e) \<le> unat idx"
  then show "remove_loop idx e = (False, e)"
    by (simp add: remove_loop_def)
next
  assume ne: "instances e \<noteq> []"
  have pos: "0 < length (instances e)" using ne by simp
  have w: "(word_of_nat (length (instances e)) - 1 :: 32 word)
             = word_of_nat (length (instances e) - 1)"
    using pos by (rule word_of_nat_pred)
  have u: "unat (word_of_nat (length (instances e) - 1) :: 32 word) = length (instances e) - 1"
    using assms by (simp add: unat_of_nat_32)
  show r: "mainloop_event looper_value activate (ConfigLoopEvent Remove ch (- 1)) e
         = snd (remove_loop (word_of_nat (length (instances e) - 1)) e)"
    by (simp only: mainloop_event_def EventNonRT.case ConfigLoopType.distinct if_True if_False
          refl w)
  have "Suc (unat (word_of_nat (length (instances e) - 1) :: 32 word)) = length (instances e)"
    using pos by (simp only: u)
  then have "instances (snd (remove_loop (word_of_nat (length (instances e) - 1)) e))
          = butlast (instances e)"
    by (rule remove_last)
  then show "instances (mainloop_event looper_value activate (ConfigLoopEvent Remove ch (- 1)) e)
         = butlast (instances e)"
    by (simp only: r)
next
  assume "instances e = []"
  then show "mainloop_event looper_value activate (ConfigLoopEvent Remove ch (- 1)) e = e"
    by (simp add: mainloop_event_def remove_loop_def)
next
  assume "idx \<noteq> - 1"
  then show "mainloop_event looper_value activate (ConfigLoopEvent Remove ch idx) e
         = snd (remove_loop idx e)"
    by (simp add: mainloop_event_def)
qed

theorem remove_loop_bounds_witness:
  "length (instances (ex_engine [ex_looper 0, ex_looper 1, ex_looper 2]
       \<lparr>slots = [ev0], read_cursor = 0, write_cursor = 0\<rparr>)) < 2 ^ 31
   \<and> unat (1 :: 32 word) < length (instances (ex_engine [ex_looper 0, ex_looper 1, ex_looper 2]
       \<lparr>slots = [ev0], read_cursor = 0, write_cursor = 0\<rparr>))
   \<and> fst (remove_loop 1 (ex_engine [ex_looper 0, ex_looper 1, ex_looper 2]
       \<lparr>slots = [ev0], read_cursor = 0, write_cursor = 0\<rparr>))
   \<and> instances (snd (remove_loop 1 (ex_engine [ex_looper 0, ex_looper 1, ex_looper 2]
       \<lparr>slots = [ev0], read_cursor = 0, write_cursor = 0\<rparr>))) = [ex_looper 0, ex_looper 2]
   \<and> length (instances (ex_engine [ex_looper 0, ex_looper 1, ex_looper 2]
       \<lparr>slots = [ev0], read_cursor = 0, write_cursor = 0\<rparr>)) \<le> unat (3 :: 32 word)
   \<and> remove_loop 3 (ex_engine [ex_looper 0, ex_looper 1, ex_looper 2]
       \<lparr>slots = [ev0], read_cursor = 0, write_cursor = 0\<rparr>)
       = (False, ex_engine [ex_looper 0, ex_looper 1, ex_looper 2]
       \<lparr>slots = [ev0], read_cursor = 0, write_cursor = 0\<rparr>)
   \<and> instances (ex_engine [ex_looper 0, ex_looper 1, ex_looper 2]
       \<lparr>slots = [ev0], read_cursor = 0, write_cursor = 0\<rparr>) \<noteq> []
   \<and> instances (mainloop_event (\<lambda>l c. 0) (\<lambda>l. True) (ConfigLoopEvent Remove 0 (- 1))
        (ex_engine [ex_looper 0, ex_looper 1, ex_looper 2]
       \<lparr>slots = [ev0], read_cursor = 0, write_cursor = 0\<rparr>)) = [ex_looper 0, ex_looper 1]
   \<and> (3 :: 32 word) \<noteq> - 1
   \<and> mainloop_event (\<lambda>l c. 0) (\<lambda>l. True) (ConfigLoopEvent Remove 0 3)
        (ex_engine [ex_looper 0, ex_looper 1, ex_looper 2]
       \<lparr>slots = [ev0], read_cursor = 0, write_cursor = 0\<rparr>)
       = ex_engine [ex_looper 0, ex_looper 1, ex_looper 2]
       \<lparr>slots = [ev0], read_cursor = 0, write_cursor = 0\<rparr>
   \<and> length (instances (ex_engine [] \<lparr>slots = [ev0], read_cursor = 0, write_cursor = 0\<rparr>)) < 2 ^ 31
   \<and> instances (ex_engine [] \<lparr>slots = [ev0], read_cursor = 0, write_cursor = 0\<rparr>) = []
   \<and> mainloop_event (\<lambda>l c. 0) (\<lambda>l. True) (ConfigLoopEvent Remove 0 (- 1))
        (ex_engine [] \<lparr>slots = [ev0], read_cursor = 0, write_cursor = 0\<rparr>)
       = ex_engine [] \<lparr>slots = [ev0], read_cursor = 0, write_cursor = 0\<rparr>"
proof -
  let ?e3 = "ex_engine [ex_looper 0, ex_looper 1, ex_looper 2]
       \<lparr>slots = [ev0], read_cursor = 0, write_cursor = 0\<rparr>"
  let ?e0 = "ex_engine [] \<lparr>slots = [ev0], read_cursor = 0, write_cursor = 0\<rparr>"
  have h3: "length (instances ?e3) < 2 ^ 31" by (simp add: ex_engine_def)
  have h0: "length (instances ?e0) < 2 ^ 31" by (simp add: ex_engine_def)
  have i3: "instances ?e3 = [ex_looper 0, ex_looper 1, ex_looper 2]"
    by (simp add: ex_engine_def)
  have i0: "instances ?e0 = []"
    by (simp add: ex_engine_def)
  have ne: "(3 :: 32 word) \<noteq> - 1" by simp
  note t1 = remove_loop_bounds [OF h3, of 1 "\<lambda>l c. 0" "\<lambda>l. True" 0]
  note t3 = remove_loop_bounds [OF h3, of 3 "\<lambda>l c. 0" "\<lambda>l. True" 0]
  note t0 = remove_loop_bounds [OF h0, of 3 "\<lambda>l c. 0" "\<lambda>l. True" 0]
  have a: "fst (remove_loop 1 ?e3)"
    and b: "instances (snd (remove_loop 1 ?e3)) = [ex_looper 0, ex_looper 2]"
    using t1 by (simp_all add: i3)
  have c: "remove_loop 3 ?e3 = (False, ?e3)"
    using t3 by (simp add: i3)
  have nonempty: "instances ?e3 \<noteq> []" by (simp add: i3)
  have d: "instances (mainloop_event (\<lambda>l c. 0) (\<lambda>l. True) (ConfigLoopEvent Remove 0 (- 1)) ?e3)
            = [ex_looper 0, ex_looper 1]"
    using t3 [THEN conjunct2, THEN conjunct2, THEN conjunct1, THEN mp, OF nonempty, THEN conjunct2]
    by (simp add: i3)
  have f: "mainloop_event (\<lambda>l c. 0) (\<lambda>l. True) (ConfigLoopEvent Remove 0 3) ?e3 = ?e3"
    using t3 ne by (simp add: c)
  have g: "mainloop_event (\<lambda>l c. 0) (\<lambda>l. True) (ConfigLoopEvent Remove 0 (- 1)) ?e0 = ?e0"
    using t0 i0 by simp
  show ?thesis
    using h3 h0 a b c d f g ne i0 by (simp add: i3)
qed

text \<open>
  C9. With fewer than \<open>2 ^ 31\<close> instances: \<^verbatim>\<open>get_control_value\<close> is 0 for an index
  that is negative or at least the registry size, and what the addressed instance
  reads for the control for an index in range.
\<close>

theorem get_control_value_range:
  assumes "length (instances e) < 2 ^ 31"
  shows "(sint inst < 0 \<or> int (length (instances e)) \<le> sint inst \<longrightarrow>
            get_control_value looper_value ctrl inst e = 0)
       \<and> (0 \<le> sint inst \<and> sint inst < int (length (instances e)) \<longrightarrow>
            get_control_value looper_value ctrl inst e
              = looper_value (instances e ! nat (sint inst)) ctrl)"
  using assms by (auto simp: get_control_value_def sint_of_nat_32)


theorem get_control_value_range_witness:
  "length (instances (ex_engine [ex_looper 0, ex_looper 1] \<lparr>slots = [ev0], read_cursor = 0, write_cursor = 0\<rparr>)) < 2 ^ 31
   \<and> get_control_value (\<lambda>l c. index l + 10) 0 (- 1)
        (ex_engine [ex_looper 0, ex_looper 1] \<lparr>slots = [ev0], read_cursor = 0, write_cursor = 0\<rparr>) = 0
   \<and> get_control_value (\<lambda>l c. index l + 10) 0 2
        (ex_engine [ex_looper 0, ex_looper 1] \<lparr>slots = [ev0], read_cursor = 0, write_cursor = 0\<rparr>) = 0
   \<and> get_control_value (\<lambda>l c. index l + 10) 0 1
        (ex_engine [ex_looper 0, ex_looper 1] \<lparr>slots = [ev0], read_cursor = 0, write_cursor = 0\<rparr>) = 11"
proof -
  let ?e = "ex_engine [ex_looper 0, ex_looper 1] \<lparr>slots = [ev0], read_cursor = 0, write_cursor = 0\<rparr>"
  have h: "length (instances ?e) < 2 ^ 31" by (simp add: ex_engine_def)
  show ?thesis
    using get_control_value_range [OF h, of "- 1" "\<lambda>l c. index l + 10" 0]
          get_control_value_range [OF h, of 2 "\<lambda>l c. index l + 10" 0]
          get_control_value_range [OF h, of 1 "\<lambda>l c. index l + 10" 0]
    by (simp add: ex_engine_def ex_looper_def new_Looper_def)
qed

section \<open>Facts about the example states\<close>

lemma ex_queue_inv: "rb_inv (ex_queue a b c 6)" "rb_inv (ex_queue a b c 5)"
  by (simp_all add: rb_inv_def ex_queue_def)

lemma ex_queue_pending:
  "pending (ex_queue a b c 6) = [a, b, c]"
  "pending (ex_queue a b c 5) = [a, b]"
  by (simp_all add: pending_def ex_queue_def upt_rec)

lemma ex_engine_fields:
  "instances (ex_engine insts q) = insts"
  "event_queue (ex_engine insts q) = q"
  by (simp_all add: ex_engine_def)

section \<open>The real-time dispatch with the registry lock\<close>

text \<open>
  The event loop reads the first span and then the second, which are the unread events
  in queue order: it is a fold of \<open>event_step\<close> over them.
\<close>

lemma event_loop_second_span:
  "event_loop nframes sl vec (Suc 0) n num st
     = fold (event_step nframes) (map (\<lambda>k. sl ! (buf vec ! Suc 0 + k)) [n ..< num]) st"
proof (induction "num - n" arbitrary: n st)
  case 0
  then have "\<not> n < num" by simp
  then show ?case by (subst event_loop.simps) simp
next
  case (Suc d)
  then have lt: "n < num" and d: "d = num - Suc n" by simp_all
  have "event_loop nframes sl vec (Suc 0) n num st
          = event_loop nframes sl vec (Suc 0) (Suc n) num
              (event_step nframes (sl ! (buf vec ! Suc 0 + n)) st)"
    using lt by (subst event_loop.simps) (simp add: Let_def)
  also have "\<dots> = fold (event_step nframes)
                      (map (\<lambda>k. sl ! (buf vec ! Suc 0 + k)) [Suc n ..< num])
                      (event_step nframes (sl ! (buf vec ! Suc 0 + n)) st)"
    using d by (rule Suc.hyps(1))
  finally show ?case using lt by (simp add: upt_conv_Cons)
qed

lemma event_loop_first_span:
  assumes "n < num"
  shows "event_loop nframes sl vec 0 n num st
     = fold (event_step nframes)
         (map (\<lambda>k. sl ! (buf vec ! 0 + k)) [n ..< num]
          @ map (\<lambda>k. sl ! (buf vec ! Suc 0 + k)) [0 ..< len vec ! Suc 0]) st"
  using assms
proof (induction "num - n" arbitrary: n st)
  case 0
  then show ?case by simp
next
  case (Suc d)
  note lt = \<open>n < num\<close>
  show ?case
  proof (cases "Suc n = num")
    case True
    have "event_loop nframes sl vec 0 n num st
            = event_loop nframes sl vec (Suc 0) 0 (len vec ! Suc 0)
                (event_step nframes (sl ! (buf vec ! 0 + n)) st)"
      using lt True by (subst event_loop.simps) (simp add: Let_def)
    also have "\<dots> = fold (event_step nframes)
                        (map (\<lambda>k. sl ! (buf vec ! Suc 0 + k)) [0 ..< len vec ! Suc 0])
                        (event_step nframes (sl ! (buf vec ! 0 + n)) st)"
      by (rule event_loop_second_span)
    finally show ?thesis using True by (simp add: upt_conv_Cons)
  next
    case False
    then have lt': "Suc n < num" using lt by simp
    have d: "d = num - Suc n" using Suc.hyps(2) by simp
    have "event_loop nframes sl vec 0 n num st
            = event_loop nframes sl vec 0 (Suc n) num
                (event_step nframes (sl ! (buf vec ! 0 + n)) st)"
      using lt False by (subst event_loop.simps) (simp add: Let_def)
    also have "\<dots> = fold (event_step nframes)
         (map (\<lambda>k. sl ! (buf vec ! 0 + k)) [Suc n ..< num]
          @ map (\<lambda>k. sl ! (buf vec ! Suc 0 + k)) [0 ..< len vec ! Suc 0])
         (event_step nframes (sl ! (buf vec ! 0 + n)) st)"
      using d lt' by (rule Suc.hyps(1))
    finally show ?thesis using lt by (simp add: upt_conv_Cons)
  qed
qed

lemma event_loop_pending:
  assumes "rb_inv q" "0 < len (get_read_vector q) ! 0"
  shows "event_loop nframes (slots q) (get_read_vector q) 0 0 (len (get_read_vector q) ! 0) st
           = fold (event_step nframes) (pending q) st"
  using event_loop_first_span [OF assms(2)] pending_read_vector [OF assms(1)] by simp

lemma process_locked:
  assumes "rb_inv (event_queue e)"
  shows "process True nframes e =
           e\<lparr>event_generator := updateFragmentTime nframes (event_generator e),
             event_queue := increment_read_ptr (read_space (event_queue e)) (event_queue e),
             instances :=
               map (run (fst (fold (event_step nframes) (pending (event_queue e)) (0, instances e)))
                        (nframes - fst (fold (event_step nframes) (pending (event_queue e))
                                         (0, instances e))))
                   (snd (fold (event_step nframes) (pending (event_queue e)) (0, instances e)))\<rparr>"
proof (cases "len (get_read_vector (event_queue e)) ! 0 = 0")
  case True
  then have "read_space (event_queue e) = 0"
    using assms by (simp add: read_vector_len0)
  moreover from this have "pending (event_queue e) = []"
    by (simp add: pending_def read_space_def)
  ultimately show ?thesis
    using True by (simp add: process_def Let_def increment_read_ptr_def)
next
  case False
  then have pos: "0 < len (get_read_vector (event_queue e)) ! 0" by simp
  show ?thesis
    using pos
    by (simp add: process_def Let_def event_loop_pending [OF assms pos] read_vector_total
          split_beta)
qed

text \<open>The dispatch keeps the invariant of the queue.\<close>

lemma rb_inv_process:
  assumes "rb_inv (event_queue e)"
  shows "rb_inv (event_queue (process locked nframes e))"
proof (cases locked)
  case True
  then show ?thesis
    using assms
    by (simp add: process_locked [OF assms] rb_inv_def increment_read_ptr_def read_space_def)
next
  case False
  then show ?thesis using assms by (simp add: process_def Let_def)
qed

lemma instances_loop_length:
  "length (instances_loop evt u d k insts) = length insts"
  by (induction insts arbitrary: k) (simp_all add: Let_def)

lemma instances_loop_nth:
  assumes "m < length insts"
  shows "instances_loop evt u d k insts ! m
           = (if Instance evt = - 1 \<or> sint (Instance evt) = k + int m
              then do_event evt (run u d (insts ! m)) else run u d (insts ! m))"
  using assms
proof (induction insts arbitrary: k m)
  case Nil
  then show ?case by simp
next
  case (Cons i rest)
  show ?case
  proof (cases m)
    case 0
    then show ?thesis by (simp add: Let_def)
  next
    case (Suc m')
    then have "m' < length rest" using Cons.prems by simp
    from Cons.IH [OF this, of "k + 1"] show ?thesis
      using Suc by (simp add: Let_def add.assoc)
  qed
qed

lemma instances_loop_calls:
  assumes "m < length insts"
  shows "calls (instances_loop evt u d 0 insts ! m)
           = calls (insts ! m) @ Run u d # (if addressed m evt then [DoEvent evt] else [])"
  using assms by (simp add: instances_loop_nth addressed_def run_def do_event_def)

lemma event_step_skip:
  assumes "FragmentPos evt < fst st \<or> nframes \<le> FragmentPos evt"
  shows "event_step nframes evt st = st"
  using assms by (auto simp: event_step_def Let_def)

lemma event_step_valid:
  assumes "u \<le> FragmentPos evt" "FragmentPos evt < nframes"
  shows "event_step nframes evt (u, insts)
           = (FragmentPos evt, instances_loop evt u (FragmentPos evt - u) 0 insts)"
  using assms by (simp add: event_step_def Let_def not_less [symmetric])

lemma fold_event_step_timeline:
  assumes "sorted_wrt (<) (map FragmentPos es)"
      and "\<forall>ev \<in> set es. u \<le> FragmentPos ev \<and> FragmentPos ev < nframes"
      and "m < length insts"
  shows "length (snd (fold (event_step nframes) es (u, insts))) = length insts
       \<and> calls (run (fst (fold (event_step nframes) es (u, insts)))
                    (nframes - fst (fold (event_step nframes) es (u, insts)))
                    (snd (fold (event_step nframes) es (u, insts)) ! m))
           = calls (insts ! m) @ timeline m nframes u es"
  using assms
proof (induction es arbitrary: u insts)
  case Nil
  then show ?case by (simp add: run_def)
next
  case (Cons ev es)
  let ?p = "FragmentPos ev"
  let ?insts = "instances_loop ev u (?p - u) 0 insts"
  have valid: "u \<le> ?p" "?p < nframes" using Cons.prems(2) by simp_all
  have step: "event_step nframes ev (u, insts) = (?p, ?insts)"
    using valid by (rule event_step_valid)
  have sorted: "sorted_wrt (<) (map FragmentPos es)"
    using Cons.prems(1) by simp
  have bounds: "\<forall>ev' \<in> set es. ?p \<le> FragmentPos ev' \<and> FragmentPos ev' < nframes"
    using Cons.prems(1,2) by (auto simp: less_imp_le)
  have m: "m < length ?insts"
    using Cons.prems(3) by (simp add: instances_loop_length)
  note ih = Cons.IH [OF sorted bounds m]
  have here: "calls (?insts ! m)
                = calls (insts ! m) @ Run u (?p - u) # (if addressed m ev then [DoEvent ev] else [])"
    using Cons.prems(3) by (rule instances_loop_calls)
  show ?case
    using ih by (simp add: step here instances_loop_length)
qed


lemma timeline_applied_events:
  "applied_events (timeline m nframes u es) = filter (addressed m) es"
  by (induction es arbitrary: u) simp_all

lemma timeline_run_spans:
  "run_spans (timeline m nframes u es)
     = zip (u # map FragmentPos es)
           (map2 (-) (map FragmentPos es @ [nframes]) (u # map FragmentPos es))"
  by (induction es arbitrary: u) simp_all

lemma timeline_frames:
  assumes "sorted_wrt (<) (map FragmentPos es)"
      and "\<forall>ev \<in> set es. u \<le> FragmentPos ev \<and> FragmentPos ev < nframes"
      and "u \<le> nframes"
  shows "sum_list (map (\<lambda>(offset, n). unat n) (run_spans (timeline m nframes u es)))
           = unat nframes - unat u"
  using assms
proof (induction es arbitrary: u)
  case Nil
  then show ?case by (simp add: unat_sub)
next
  case (Cons ev es)
  let ?p = "FragmentPos ev"
  have valid: "u \<le> ?p" "?p < nframes" using Cons.prems(2) by simp_all
  have sorted: "sorted_wrt (<) (map FragmentPos es)"
    using Cons.prems(1) by simp
  have bounds: "\<forall>ev' \<in> set es. ?p \<le> FragmentPos ev' \<and> FragmentPos ev' < nframes"
    using Cons.prems(1,2) by (auto simp: less_imp_le)
  have le: "?p \<le> nframes" using valid(2) by (rule less_imp_le)
  have rest: "sum_list (map (\<lambda>(offset, n). unat n) (run_spans (timeline m nframes ?p es)))
                = unat nframes - unat ?p"
    using sorted bounds le by (rule Cons.IH)
  have a: "unat (?p - u) = unat ?p - unat u" using valid(1) by (rule unat_sub)
  have b: "unat u \<le> unat ?p" using valid(1) by (simp add: word_le_nat_alt)
  have c: "unat ?p \<le> unat nframes" using le by (simp add: word_le_nat_alt)
  have "sum_list (map (\<lambda>(offset, n). unat n) (run_spans (timeline m nframes u (ev # es))))
          = unat (?p - u)
            + sum_list (map (\<lambda>(offset, n). unat n) (run_spans (timeline m nframes ?p es)))"
    by simp
  also have "\<dots> = (unat ?p - unat u) + (unat nframes - unat ?p)"
    by (simp only: a rest)
  also have "\<dots> = unat nframes - unat u" using b c by arith
  finally show ?case .
qed

text \<open>
  C1 (amended). In a dispatch that acquires the lock, when the positions of the unread
  events are strictly increasing and below \<open>nframes\<close>, every instance \<open>m\<close> of the
  registry keeps the calls it had and receives, after them, exactly the expected calls:
  the events addressed to it, all of them and in queue order, which is the order of
  their positions; runs that start at 0 and at each event position and end at the next
  event position or at \<open>nframes\<close>; so the frame counts of its runs add up to
  \<open>nframes\<close>. Every event is consumed.
\<close>

theorem process_partitions_buffer:
  assumes "rb_inv (event_queue e)"
      and "sorted_wrt (<) (map FragmentPos (pending (event_queue e)))"
      and "\<forall>ev \<in> set (pending (event_queue e)). FragmentPos ev < nframes"
      and "m < length (instances e)"
  shows "length (instances (process True nframes e)) = length (instances e)
       \<and> calls (instances (process True nframes e) ! m)
           = calls (instances e ! m)
             @ new_calls (instances e) (instances (process True nframes e)) m
       \<and> new_calls (instances e) (instances (process True nframes e)) m
           = timeline m nframes 0 (pending (event_queue e))
       \<and> applied_events (new_calls (instances e) (instances (process True nframes e)) m)
           = filter (addressed m) (pending (event_queue e))
       \<and> run_spans (new_calls (instances e) (instances (process True nframes e)) m)
           = zip (0 # map FragmentPos (pending (event_queue e)))
                 (map2 (-) (map FragmentPos (pending (event_queue e)) @ [nframes])
                           (0 # map FragmentPos (pending (event_queue e))))
       \<and> sum_list (map (\<lambda>(offset, n). unat n)
           (run_spans (new_calls (instances e) (instances (process True nframes e)) m)))
           = unat nframes
       \<and> pending (event_queue (process True nframes e)) = []"
proof -
  let ?es = "pending (event_queue e)"
  let ?st = "fold (event_step nframes) ?es (0, instances e)"
  let ?after = "instances (process True nframes e)"
  have bounds: "\<forall>ev \<in> set ?es. 0 \<le> FragmentPos ev \<and> FragmentPos ev < nframes"
    using assms(3) by simp
  note ft = fold_event_step_timeline [OF assms(2) bounds assms(4)]
  have after: "?after = map (run (fst ?st) (nframes - fst ?st)) (snd ?st)"
    by (simp add: process_locked [OF assms(1)])
  have len: "length ?after = length (instances e)"
    using ft by (simp add: after)
  have m: "m < length (snd ?st)" using ft assms(4) by simp
  have cs: "calls (?after ! m) = calls (instances e ! m) @ timeline m nframes 0 ?es"
    using ft m by (simp add: after)
  have new: "new_calls (instances e) ?after m = timeline m nframes 0 ?es"
    by (simp add: new_calls_def cs)
  have frames: "sum_list (map (\<lambda>(offset, n). unat n) (run_spans (timeline m nframes 0 ?es)))
                  = unat nframes"
    using timeline_frames [OF assms(2) bounds, of m] by simp
  have consumed: "pending (event_queue (process True nframes e)) = []"
    using assms(1)
    by (simp add: process_locked [OF assms(1)] pending_def increment_read_ptr_def
          read_space_def rb_inv_def)
  have cs': "calls (?after ! m)
               = calls (instances e ! m) @ new_calls (instances e) ?after m"
    by (simp only: new cs)
  have ap: "applied_events (new_calls (instances e) ?after m) = filter (addressed m) ?es"
    by (simp only: new timeline_applied_events)
  have sp: "run_spans (new_calls (instances e) ?after m)
              = zip (0 # map FragmentPos ?es)
                    (map2 (-) (map FragmentPos ?es @ [nframes]) (0 # map FragmentPos ?es))"
    by (simp only: new timeline_run_spans)
  have fr: "sum_list (map (\<lambda>(offset, n). unat n)
              (run_spans (new_calls (instances e) ?after m))) = unat nframes"
    by (simp only: new frames)
  from len cs' new ap sp fr consumed show ?thesis
    by (intro conjI) assumption+
qed

theorem process_partitions_buffer_witness:
  "rb_inv (event_queue ex_sorted_engine)
   \<and> pending (event_queue ex_sorted_engine) = [ev_at 10 (- 1), ev_at 20 1, ev_at 30 0]
   \<and> sorted_wrt (<) (map FragmentPos (pending (event_queue ex_sorted_engine)))
   \<and> FragmentPos (ev_at 10 (- 1)) < (64 :: nframes_t)
   \<and> FragmentPos (ev_at 20 1) < (64 :: nframes_t)
   \<and> FragmentPos (ev_at 30 0) < (64 :: nframes_t)
   \<and> Suc 0 < length (instances ex_sorted_engine)
   \<and> new_calls (instances ex_sorted_engine) (instances (process True 64 ex_sorted_engine)) (Suc 0)
       = [Run 0 10, DoEvent (ev_at 10 (- 1)), Run 10 10, DoEvent (ev_at 20 1), Run 20 10,
          Run 30 34]
   \<and> sum_list (map (\<lambda>(offset, n). unat n)
         (run_spans (new_calls (instances ex_sorted_engine)
            (instances (process True 64 ex_sorted_engine)) (Suc 0)))) = unat (64 :: nframes_t)"
proof -
  have pd: "pending (event_queue ex_sorted_engine) = [ev_at 10 (- 1), ev_at 20 1, ev_at 30 0]"
    by (simp add: ex_sorted_engine_def ex_engine_fields ex_queue_pending)
  have h1: "rb_inv (event_queue ex_sorted_engine)"
    by (simp add: ex_sorted_engine_def ex_engine_fields ex_queue_inv)
  have h2: "sorted_wrt (<) (map FragmentPos (pending (event_queue ex_sorted_engine)))"
    by (simp add: pd ev_at_def)
  have h3: "\<forall>ev \<in> set (pending (event_queue ex_sorted_engine)). FragmentPos ev < 64"
    by (simp add: pd ev_at_def)
  have h4: "Suc 0 < length (instances ex_sorted_engine)"
    by (simp add: ex_sorted_engine_def ex_engine_fields)
  note t = process_partitions_buffer [OF h1 h2 h3 h4]
  have tl: "timeline (Suc 0) 64 0 [ev_at 10 (- 1), ev_at 20 1, ev_at 30 0]
              = [Run 0 10, DoEvent (ev_at 10 (- 1)), Run 10 10, DoEvent (ev_at 20 1), Run 20 10,
                 Run 30 34]"
    by (simp add: addressed_def ev_at_def)
  have new: "new_calls (instances ex_sorted_engine)
               (instances (process True 64 ex_sorted_engine)) (Suc 0)
             = [Run 0 10, DoEvent (ev_at 10 (- 1)), Run 10 10, DoEvent (ev_at 20 1), Run 20 10,
                Run 30 34]"
    using t [THEN conjunct2, THEN conjunct2, THEN conjunct1] by (simp only: pd tl)
  have fr: "sum_list (map (\<lambda>(offset, n). unat n)
         (run_spans (new_calls (instances ex_sorted_engine)
            (instances (process True 64 ex_sorted_engine)) (Suc 0)))) = unat (64 :: nframes_t)"
    using t by (elim conjE)
  have lt: "FragmentPos (ev_at 10 (- 1)) < (64 :: nframes_t)"
    "FragmentPos (ev_at 20 1) < (64 :: nframes_t)" "FragmentPos (ev_at 30 0) < (64 :: nframes_t)"
    by (simp_all add: ev_at_def)
  from h1 pd h2 lt h4 new fr show ?thesis
    by (intro conjI) assumption+
qed

text \<open>
  Without the lock the property does not hold for every dispatch: on the same queue of
  three events at increasing positions below 64, a dispatch of 64 frames that does not
  acquire the lock gives the instance at position 1 no call at all, so neither of the
  two events addressed to it is applied and the frame counts of its runs add up to 0.
\<close>

theorem process_partition_lock_busy_counterexample:
  "rb_inv (event_queue ex_sorted_engine)
   \<and> pending (event_queue ex_sorted_engine) = [ev_at 10 (- 1), ev_at 20 1, ev_at 30 0]
   \<and> sorted_wrt (<) (map FragmentPos (pending (event_queue ex_sorted_engine)))
   \<and> FragmentPos (ev_at 10 (- 1)) < (64 :: nframes_t)
   \<and> FragmentPos (ev_at 20 1) < (64 :: nframes_t)
   \<and> FragmentPos (ev_at 30 0) < (64 :: nframes_t)
   \<and> Suc 0 < length (instances ex_sorted_engine)
   \<and> new_calls (instances ex_sorted_engine) (instances (process False 64 ex_sorted_engine)) (Suc 0)
       = []
   \<and> applied_events
        (new_calls (instances ex_sorted_engine) (instances (process False 64 ex_sorted_engine)) (Suc 0))
       \<noteq> filter (addressed (Suc 0)) (pending (event_queue ex_sorted_engine))
   \<and> sum_list (map (unat \<circ> snd)
        (run_spans (new_calls (instances ex_sorted_engine)
           (instances (process False 64 ex_sorted_engine)) (Suc 0))))
       \<noteq> unat (64 :: nframes_t)"
proof -
  have pd: "pending (event_queue ex_sorted_engine) = [ev_at 10 (- 1), ev_at 20 1, ev_at 30 0]"
    by (simp add: ex_sorted_engine_def ex_engine_fields ex_queue_pending)
  have inv: "rb_inv (event_queue ex_sorted_engine)"
    by (simp add: ex_sorted_engine_def ex_engine_fields ex_queue_inv)
  have so: "sorted_wrt (<) (map FragmentPos (pending (event_queue ex_sorted_engine)))"
    by (simp add: pd ev_at_def)
  have lt: "FragmentPos (ev_at 10 (- 1)) < (64 :: nframes_t)"
    "FragmentPos (ev_at 20 1) < (64 :: nframes_t)" "FragmentPos (ev_at 30 0) < (64 :: nframes_t)"
    by (simp_all add: ev_at_def)
  have m: "Suc 0 < length (instances ex_sorted_engine)"
    by (simp add: ex_sorted_engine_def ex_engine_fields)
  have same: "instances (process False 64 ex_sorted_engine) = instances ex_sorted_engine"
    by (simp add: process_def Let_def)
  have new: "new_calls (instances ex_sorted_engine)
               (instances (process False 64 ex_sorted_engine)) (Suc 0) = []"
    by (simp add: same new_calls_def)
  have ap: "applied_events
        (new_calls (instances ex_sorted_engine) (instances (process False 64 ex_sorted_engine)) (Suc 0))
       \<noteq> filter (addressed (Suc 0)) (pending (event_queue ex_sorted_engine))"
    by (simp add: new pd addressed_def ev_at_def)
  have fr: "sum_list (map (unat \<circ> snd)
        (run_spans (new_calls (instances ex_sorted_engine)
           (instances (process False 64 ex_sorted_engine)) (Suc 0))))
       \<noteq> unat (64 :: nframes_t)"
    by (simp add: new)
  from inv pd so lt m new ap fr show ?thesis
    by (intro conjI) assumption+
qed

text \<open>
  C2. Let the loop reach an event \<open>ev\<close> after the events \<open>es1\<close>, with the frames used
  and the instances that the fold over \<open>es1\<close> gives. When the position of \<open>ev\<close> is at
  or beyond \<open>nframes\<close>, or below the frames used, the step for \<open>ev\<close> leaves the frames
  used and every instance (so every call log) as they are; and the instances after the
  whole dispatch are those of the same dispatch on a queue without \<open>ev\<close>.
\<close>

theorem bad_event_skipped:
  assumes "rb_inv (event_queue e)" "rb_inv (event_queue e')"
      and "instances e' = instances e"
      and "pending (event_queue e) = es1 @ ev # es2"
      and "pending (event_queue e') = es1 @ es2"
      and "nframes \<le> FragmentPos ev
           \<or> FragmentPos ev < fst (fold (event_step nframes) es1 (0, instances e))"
  shows "event_step nframes ev (fold (event_step nframes) es1 (0, instances e))
           = fold (event_step nframes) es1 (0, instances e)
       \<and> instances (process True nframes e) = instances (process True nframes e')"
proof -
  have skip: "event_step nframes ev (fold (event_step nframes) es1 (0, instances e))
                = fold (event_step nframes) es1 (0, instances e)"
    using assms(6) by (intro event_step_skip) auto
  have "fold (event_step nframes) (es1 @ ev # es2) (0, instances e)
          = fold (event_step nframes) (es1 @ es2) (0, instances e)"
    by (simp add: skip)
  then have "instances (process True nframes e) = instances (process True nframes e')"
    by (simp add: process_locked [OF assms(1)] process_locked [OF assms(2)] assms(3,4,5))
  with skip show ?thesis by simp
qed

theorem bad_event_skipped_witness:
  "rb_inv (event_queue ex_stale_engine)
   \<and> pending (event_queue ex_stale_engine) = [ev_at 20 (- 1)] @ ev_at 10 0 # [ev_at 100 0]
   \<and> pending (event_queue ex_stale_engine) = [ev_at 20 (- 1), ev_at 10 0] @ ev_at 100 0 # []
   \<and> fst (fold (event_step 64) [ev_at 20 (- 1)] (0, instances ex_stale_engine)) = 20
   \<and> FragmentPos (ev_at 10 0) < fst (fold (event_step 64) [ev_at 20 (- 1)] (0, instances ex_stale_engine))
   \<and> event_step 64 (ev_at 10 0) (fold (event_step 64) [ev_at 20 (- 1)] (0, instances ex_stale_engine))
       = fold (event_step 64) [ev_at 20 (- 1)] (0, instances ex_stale_engine)
   \<and> instances (process True 64 ex_stale_engine)
       = instances (process True 64
           (ex_engine [ex_looper 0] (ex_queue (ev_at 20 (- 1)) (ev_at 100 0) ev0 5)))
   \<and> (64 :: nframes_t) \<le> FragmentPos (ev_at 100 0)
   \<and> event_step 64 (ev_at 100 0)
         (fold (event_step 64) [ev_at 20 (- 1), ev_at 10 0] (0, instances ex_stale_engine))
       = fold (event_step 64) [ev_at 20 (- 1), ev_at 10 0] (0, instances ex_stale_engine)
   \<and> instances (process True 64 ex_stale_engine)
       = instances (process True 64
           (ex_engine [ex_looper 0] (ex_queue (ev_at 20 (- 1)) (ev_at 10 0) ev0 5)))"
proof -
  let ?a = "ev_at 20 (- 1)" and ?b = "ev_at 10 0" and ?c = "ev_at 100 0"
  let ?e1 = "ex_engine [ex_looper 0] (ex_queue ?a ?c ev0 5)"
  let ?e2 = "ex_engine [ex_looper 0] (ex_queue ?a ?b ev0 5)"
  have inv: "rb_inv (event_queue ex_stale_engine)"
    "rb_inv (event_queue ?e1)" "rb_inv (event_queue ?e2)"
    by (simp_all add: ex_stale_engine_def ex_engine_fields ex_queue_inv)
  have insts: "instances ?e1 = instances ex_stale_engine"
    "instances ?e2 = instances ex_stale_engine"
    by (simp_all add: ex_stale_engine_def ex_engine_fields)
  have pd1: "pending (event_queue ex_stale_engine) = [?a] @ ?b # [?c]"
    and pd2: "pending (event_queue ex_stale_engine) = [?a, ?b] @ ?c # []"
    by (simp_all add: ex_stale_engine_def ex_engine_fields ex_queue_pending)
  have pe1: "pending (event_queue ?e1) = [?a] @ [?c]"
    and pe2: "pending (event_queue ?e2) = [?a, ?b] @ []"
    by (simp_all add: ex_engine_fields ex_queue_pending)
  have used: "fst (fold (event_step 64) [?a] (0, instances ex_stale_engine)) = 20"
    by (simp add: event_step_def ev_at_def Let_def)
  have stale: "FragmentPos ?b < fst (fold (event_step 64) [?a] (0, instances ex_stale_engine))"
  proof -
    have "FragmentPos ?b = 10" by (simp add: ev_at_def)
    then show ?thesis by (simp only: used) simp
  qed
  have late: "(64 :: nframes_t) \<le> FragmentPos ?c"
    by (simp add: ev_at_def)
  have bad1: "64 \<le> FragmentPos ?b
      \<or> FragmentPos ?b < fst (fold (event_step 64) [?a] (0, instances ex_stale_engine))"
    using stale by (rule disjI2)
  have bad2: "64 \<le> FragmentPos ?c
      \<or> FragmentPos ?c < fst (fold (event_step 64) [?a, ?b] (0, instances ex_stale_engine))"
    using late by (rule disjI1)
  note t1 = bad_event_skipped [OF inv(1) inv(2) insts(1) pd1 pe1 bad1]
  note t2 = bad_event_skipped [OF inv(1) inv(3) insts(2) pd2 pe2 bad2]
  from inv(1) pd1 pd2 used stale t1 [THEN conjunct1] t1 [THEN conjunct2] late
       t2 [THEN conjunct1] t2 [THEN conjunct2]
  show ?thesis
    by (intro conjI) assumption+
qed

text \<open>
  The call log of an instance only grows during the loop, and every event added to it
  is addressed to the instance.
\<close>

lemma fold_event_step_log:
  assumes "m < length insts"
  shows "length (snd (fold (event_step nframes) es (u, insts))) = length insts
       \<and> (\<exists>ext. calls (snd (fold (event_step nframes) es (u, insts)) ! m) = calls (insts ! m) @ ext
              \<and> (\<forall>ev. DoEvent ev \<in> set ext \<longrightarrow> addressed m ev))"
  using assms
proof (induction es arbitrary: u insts)
  case Nil
  then show ?case by simp
next
  case (Cons ev es)
  let ?p = "FragmentPos ev"
  show ?case
  proof (cases "?p < u \<or> nframes \<le> ?p")
    case True
    then have "event_step nframes ev (u, insts) = (u, insts)"
      by (intro event_step_skip) simp
    then show ?thesis using Cons.IH [OF Cons.prems, of u] by simp
  next
    case False
    then have valid: "u \<le> ?p" "?p < nframes" by (simp_all add: not_less not_le)
    let ?insts = "instances_loop ev u (?p - u) 0 insts"
    have step: "event_step nframes ev (u, insts) = (?p, ?insts)"
      using valid by (rule event_step_valid)
    have m: "m < length ?insts"
      using Cons.prems by (simp add: instances_loop_length)
    have here: "calls (?insts ! m)
                  = calls (insts ! m) @ Run u (?p - u) # (if addressed m ev then [DoEvent ev] else [])"
      using Cons.prems by (rule instances_loop_calls)
    from Cons.IH [OF m, of ?p]
    obtain ext where len: "length (snd (fold (event_step nframes) es (?p, ?insts))) = length ?insts"
      and ext: "calls (snd (fold (event_step nframes) es (?p, ?insts)) ! m) = calls (?insts ! m) @ ext"
      and adr: "\<forall>ev'. DoEvent ev' \<in> set ext \<longrightarrow> addressed m ev'"
      by blast
    let ?ext = "Run u (?p - u) # (if addressed m ev then [DoEvent ev] else []) @ ext"
    have "calls (snd (fold (event_step nframes) (ev # es) (u, insts)) ! m) = calls (insts ! m) @ ?ext"
      by (simp add: step ext here)
    moreover have "\<forall>ev'. DoEvent ev' \<in> set ?ext \<longrightarrow> addressed m ev'"
      using adr by auto
    moreover have "length (snd (fold (event_step nframes) (ev # es) (u, insts))) = length insts"
      using len by (simp add: step instances_loop_length)
    ultimately show ?thesis by blast
  qed
qed

lemma process_event_log:
  assumes "rb_inv (event_queue e)"
      and "pending (event_queue e) = es1 @ evt # es2"
      and "fst (fold (event_step nframes) es1 (0, instances e)) \<le> FragmentPos evt"
      and "FragmentPos evt < nframes"
      and "m < length (instances e)"
  shows "length (instances (process True nframes e)) = length (instances e)"
    and "prefix (calls (snd (fold (event_step nframes) es1 (0, instances e)) ! m)
                 @ Run (fst (fold (event_step nframes) es1 (0, instances e)))
                       (FragmentPos evt - fst (fold (event_step nframes) es1 (0, instances e)))
                   # (if addressed m evt then [DoEvent evt] else []))
                (calls (instances (process True nframes e) ! m))"
    and "DoEvent evt \<in> set (new_calls (instances e) (instances (process True nframes e)) m)
           \<longleftrightarrow> addressed m evt"
proof -
  let ?st1 = "fold (event_step nframes) es1 (0, instances e)"
  let ?u = "fst ?st1" and ?insts1 = "snd ?st1"
  let ?p = "FragmentPos evt"
  let ?insts2 = "instances_loop evt ?u (?p - ?u) 0 ?insts1"
  let ?st3 = "fold (event_step nframes) es2 (?p, ?insts2)"
  let ?here = "Run ?u (?p - ?u) # (if addressed m evt then [DoEvent evt] else [])"
  from fold_event_step_log [OF assms(5), of nframes es1 0]
  obtain ext1 where len1: "length ?insts1 = length (instances e)"
    and ext1: "calls (?insts1 ! m) = calls (instances e ! m) @ ext1"
    and adr1: "\<forall>ev. DoEvent ev \<in> set ext1 \<longrightarrow> addressed m ev"
    by blast
  have m1: "m < length ?insts1" using assms(5) len1 by simp
  have step: "event_step nframes evt ?st1 = (?p, ?insts2)"
    using event_step_valid [OF assms(3,4), of ?insts1] by simp
  have m2: "m < length ?insts2" using m1 by (simp add: instances_loop_length)
  have here: "calls (?insts2 ! m) = calls (?insts1 ! m) @ ?here"
    using m1 by (rule instances_loop_calls)
  from fold_event_step_log [OF m2, of nframes es2 ?p]
  obtain ext2 where len3: "length (snd ?st3) = length ?insts2"
    and ext2: "calls (snd ?st3 ! m) = calls (?insts2 ! m) @ ext2"
    and adr2: "\<forall>ev. DoEvent ev \<in> set ext2 \<longrightarrow> addressed m ev"
    by blast
  have whole: "fold (event_step nframes) (pending (event_queue e)) (0, instances e) = ?st3"
    by (simp add: assms(2) step)
  have after: "instances (process True nframes e)
                 = map (run (fst ?st3) (nframes - fst ?st3)) (snd ?st3)"
    by (simp add: process_locked [OF assms(1)] whole)
  have m3: "m < length (snd ?st3)" using m2 len3 by simp
  show "length (instances (process True nframes e)) = length (instances e)"
    using len3 len1 by (simp add: after instances_loop_length)
  have final: "calls (instances (process True nframes e) ! m)
                 = calls (instances e ! m) @ ext1 @ ?here @ ext2 @ [Run (fst ?st3) (nframes - fst ?st3)]"
    using m3 by (simp add: after run_def ext2 here ext1)
  have "calls (instances (process True nframes e) ! m)
          = (calls (?insts1 ! m) @ ?here) @ ext2 @ [Run (fst ?st3) (nframes - fst ?st3)]"
    by (simp only: final ext1 append_assoc)
  then show "prefix (calls (?insts1 ! m) @ ?here) (calls (instances (process True nframes e) ! m))"
    by (simp only: prefixI)
  have new: "new_calls (instances e) (instances (process True nframes e)) m
               = ext1 @ ?here @ ext2 @ [Run (fst ?st3) (nframes - fst ?st3)]"
    by (simp add: new_calls_def final)
  show "DoEvent evt \<in> set (new_calls (instances e) (instances (process True nframes e)) m)
           \<longleftrightarrow> addressed m evt"
    using adr1 adr2 by (auto simp: new)
qed

lemma fold_event_step_length:
  "length (snd (fold (event_step nframes) es st)) = length (snd st)"
proof (induction es arbitrary: st)
  case Nil
  then show ?case by simp
next
  case (Cons ev es)
  have "length (snd (event_step nframes ev st)) = length (snd st)"
    by (simp add: event_step_def Let_def instances_loop_length)
  then show ?case using Cons.IH [of "event_step nframes ev st"] by simp
qed

lemma process_length:
  assumes "rb_inv (event_queue e)"
  shows "length (instances (process True nframes e)) = length (instances e)"
  by (simp add: process_locked [OF assms] fold_event_step_length)

text \<open>
  C3. Let a dispatch that acquires the lock reach an unread event \<open>evt\<close> after the
  unread events \<open>es1\<close>, and let \<open>evt\<close> be in range: its position is not below the
  frames used then and is below \<open>nframes\<close>. The dispatch keeps the number of
  instances. With target -1, every instance of the registry receives \<open>evt\<close> in this
  dispatch. With a target that is not negative, the instance whose position is the
  target receives \<open>evt\<close> in this dispatch and no other instance does. For every
  instance, the call log after the dispatch starts with its log when the loop reached
  \<open>evt\<close>, then the run up to the position of \<open>evt\<close>, then \<open>evt\<close> exactly when the
  target is -1 or the position of the instance.
\<close>

theorem process_event_addressing:
  assumes "rb_inv (event_queue e)"
      and "pending (event_queue e) = es1 @ evt # es2"
      and "fst (fold (event_step nframes) es1 (0, instances e)) \<le> FragmentPos evt"
      and "FragmentPos evt < nframes"
  shows "length (instances (process True nframes e)) = length (instances e)
       \<and> (Instance evt = - 1 \<longrightarrow>
            (\<forall>m < length (instances e).
               DoEvent evt \<in> set (new_calls (instances e) (instances (process True nframes e)) m)))
       \<and> (0 \<le> sint (Instance evt) \<longrightarrow>
            (\<forall>m < length (instances e).
               (DoEvent evt \<in> set (new_calls (instances e) (instances (process True nframes e)) m))
                 = (int m = sint (Instance evt))))
       \<and> (\<forall>m < length (instances e).
            prefix (calls (snd (fold (event_step nframes) es1 (0, instances e)) ! m)
                    @ Run (fst (fold (event_step nframes) es1 (0, instances e)))
                          (FragmentPos evt - fst (fold (event_step nframes) es1 (0, instances e)))
                      # (if Instance evt = - 1 \<or> sint (Instance evt) = int m
                         then [DoEvent evt] else []))
                   (calls (instances (process True nframes e) ! m)))"
proof (intro conjI impI allI)
  show "length (instances (process True nframes e)) = length (instances e)"
    using assms(1) by (rule process_length)
next
  fix m
  assume "Instance evt = - 1" "m < length (instances e)"
  then show "DoEvent evt \<in> set (new_calls (instances e) (instances (process True nframes e)) m)"
    using process_event_log(3) [OF assms, of m] by (simp add: addressed_def)
next
  fix m
  assume nn: "0 \<le> sint (Instance evt)" and m: "m < length (instances e)"
  from nn have "Instance evt \<noteq> - 1" by auto
  then have "addressed m evt \<longleftrightarrow> int m = sint (Instance evt)"
    by (auto simp: addressed_def)
  then show "(DoEvent evt \<in> set (new_calls (instances e) (instances (process True nframes e)) m))
               = (int m = sint (Instance evt))"
    using process_event_log(3) [OF assms m] by simp
next
  fix m
  assume m: "m < length (instances e)"
  show "prefix (calls (snd (fold (event_step nframes) es1 (0, instances e)) ! m)
                @ Run (fst (fold (event_step nframes) es1 (0, instances e)))
                      (FragmentPos evt - fst (fold (event_step nframes) es1 (0, instances e)))
                  # (if Instance evt = - 1 \<or> sint (Instance evt) = int m
                     then [DoEvent evt] else []))
               (calls (instances (process True nframes e) ! m))"
    using process_event_log(2) [OF assms m] by (simp only: addressed_def)
qed

theorem process_event_addressing_witness:
  "rb_inv (event_queue ex_sorted_engine)
   \<and> pending (event_queue ex_sorted_engine) = [] @ ev_at 10 (- 1) # [ev_at 20 1, ev_at 30 0]
   \<and> pending (event_queue ex_sorted_engine) = [ev_at 10 (- 1)] @ ev_at 20 1 # [ev_at 30 0]
   \<and> fst (fold (event_step 64) [] (0, instances ex_sorted_engine)) \<le> FragmentPos (ev_at 10 (- 1))
   \<and> FragmentPos (ev_at 10 (- 1)) < (64 :: nframes_t)
   \<and> Instance (ev_at 10 (- 1)) = - 1
   \<and> fst (fold (event_step 64) [ev_at 10 (- 1)] (0, instances ex_sorted_engine))
        \<le> FragmentPos (ev_at 20 1)
   \<and> FragmentPos (ev_at 20 1) < (64 :: nframes_t)
   \<and> 0 \<le> sint (Instance (ev_at 20 1))
   \<and> length (instances ex_sorted_engine) = 2
   \<and> length (instances (process True 64 ex_sorted_engine)) = 2
   \<and> DoEvent (ev_at 10 (- 1))
        \<in> set (new_calls (instances ex_sorted_engine) (instances (process True 64 ex_sorted_engine)) 0)
   \<and> DoEvent (ev_at 10 (- 1))
        \<in> set (new_calls (instances ex_sorted_engine) (instances (process True 64 ex_sorted_engine))
                 (Suc 0))
   \<and> DoEvent (ev_at 20 1)
        \<notin> set (new_calls (instances ex_sorted_engine) (instances (process True 64 ex_sorted_engine)) 0)
   \<and> DoEvent (ev_at 20 1)
        \<in> set (new_calls (instances ex_sorted_engine) (instances (process True 64 ex_sorted_engine))
                 (Suc 0))"
proof -
  let ?a = "ev_at 10 (- 1)" and ?b = "ev_at 20 1" and ?c = "ev_at 30 0"
  let ?new = "new_calls (instances ex_sorted_engine) (instances (process True 64 ex_sorted_engine))"
  have inv: "rb_inv (event_queue ex_sorted_engine)"
    by (simp add: ex_sorted_engine_def ex_engine_fields ex_queue_inv)
  have pa: "pending (event_queue ex_sorted_engine) = [] @ ?a # [?b, ?c]"
    and pb: "pending (event_queue ex_sorted_engine) = [?a] @ ?b # [?c]"
    by (simp_all add: ex_sorted_engine_def ex_engine_fields ex_queue_pending)
  have ua: "fst (fold (event_step 64) [] (0, instances ex_sorted_engine)) \<le> FragmentPos ?a"
    by simp
  have ub: "fst (fold (event_step 64) [?a] (0, instances ex_sorted_engine)) \<le> FragmentPos ?b"
    by (simp add: event_step_def ev_at_def Let_def)
  have ra: "FragmentPos ?a < (64 :: nframes_t)" and rb: "FragmentPos ?b < (64 :: nframes_t)"
    by (simp_all add: ev_at_def)
  have ia: "Instance ?a = - 1" and ib: "0 \<le> sint (Instance ?b)"
    and sb: "sint (Instance ?b) = 1"
    by (simp_all add: ev_at_def)
  have len: "length (instances ex_sorted_engine) = 2"
    by (simp add: ex_sorted_engine_def ex_engine_fields)
  have m0: "0 < length (instances ex_sorted_engine)"
    and m1: "Suc 0 < length (instances ex_sorted_engine)"
    by (simp_all add: len)
  note ta = process_event_addressing [OF inv pa ua ra]
  note tb = process_event_addressing [OF inv pb ub rb]
  have len': "length (instances (process True 64 ex_sorted_engine)) = 2"
    using ta [THEN conjunct1] by (simp only: len)
  note all_a = ta [THEN conjunct2, THEN conjunct1, THEN mp, OF ia]
  note all_b = tb [THEN conjunct2, THEN conjunct2, THEN conjunct1, THEN mp, OF ib]
  have a0: "DoEvent ?a \<in> set (?new 0)"
    using all_a [THEN spec, THEN mp, OF m0] .
  have a1: "DoEvent ?a \<in> set (?new (Suc 0))"
    using all_a [THEN spec, THEN mp, OF m1] .
  have b0: "DoEvent ?b \<notin> set (?new 0)"
    using all_b [THEN spec, THEN mp, OF m0] by (simp add: sb)
  have b1: "DoEvent ?b \<in> set (?new (Suc 0))"
    using all_b [THEN spec, THEN mp, OF m1] by (simp add: sb)
  from inv pa pb ua ra ia ub rb ib len len' a0 a1 b0 b1 show ?thesis
    by (intro conjI) assumption+
qed

section \<open>The real-time dispatch when the registry is locked\<close>

text \<open>
  C6. When the tentative lock is not acquired, \<^verbatim>\<open>process\<close> gives the frame count to
  the event generator and changes nothing else: the instances receive no call (no
  \<^verbatim>\<open>run\<close>, no event), and the queue, its read cursor and its unread events are as
  before.
\<close>

theorem process_lock_busy:
  "fragment_updates (event_generator (process False nframes e))
     = fragment_updates (event_generator e) @ [nframes]
   \<and> instances (process False nframes e) = instances e
   \<and> event_queue (process False nframes e) = event_queue e
   \<and> read_cursor (event_queue (process False nframes e)) = read_cursor (event_queue e)
   \<and> pending (event_queue (process False nframes e)) = pending (event_queue e)
   \<and> process False nframes e
       = e\<lparr>event_generator := updateFragmentTime nframes (event_generator e)\<rparr>"
  by (simp add: process_def updateFragmentTime_def Let_def)

section \<open>Cleanup\<close>

text \<open>
  After a \<^verbatim>\<open>cleanup\<close> that went through, the pointers to the queue and the generator
  are 0 and the pointer to the control front end is what it was. So a second
  \<^verbatim>\<open>cleanup\<close> changes nothing when there was no front end, and deletes the front end
  a second time when there was one.
\<close>

lemma cleanup_osc_ptrs:
  assumes "cleanup_osc s = Inr s1"
  shows "osc s1 = osc s" "event_queue_ptr s1 = event_queue_ptr s"
    "event_generator_ptr s1 = event_generator_ptr s"
  using assms by (auto simp: cleanup_osc_def split: if_splits sum.splits)

lemma cleanup_event_queue_ptrs:
  assumes "cleanup_event_queue s = Inr s1"
  shows "osc s1 = osc s" "event_queue_ptr s1 = 0"
    "event_generator_ptr s1 = event_generator_ptr s"
  using assms by (auto simp: cleanup_event_queue_def split: if_splits sum.splits)

lemma cleanup_event_generator_ptrs:
  assumes "cleanup_event_generator s = Inr s1"
  shows "osc s1 = osc s" "event_queue_ptr s1 = event_queue_ptr s"
    "event_generator_ptr s1 = 0"
  using assms by (auto simp: cleanup_event_generator_def split: if_splits sum.splits)

lemma cleanup_ptrs:
  assumes "cleanup s = Inr s'"
  shows "osc s' = osc s \<and> event_queue_ptr s' = 0 \<and> event_generator_ptr s' = 0 \<and> \<not> ok s'"
proof -
  obtain s1 where s1: "cleanup_osc s = Inr s1"
    using assms by (cases "cleanup_osc s") (simp_all add: cleanup_def)
  obtain s2 where s2: "cleanup_event_queue s1 = Inr s2"
    using assms s1 by (cases "cleanup_event_queue s1") (simp_all add: cleanup_def)
  obtain s3 where s3: "cleanup_event_generator s2 = Inr s3"
    using assms s1 s2 by (cases "cleanup_event_generator s2") (simp_all add: cleanup_def)
  have "s' = s3\<lparr>ok := False\<rparr>"
    using assms s1 s2 s3 by (simp add: cleanup_def)
  then show ?thesis
    using cleanup_osc_ptrs [OF s1] cleanup_event_queue_ptrs [OF s2]
          cleanup_event_generator_ptrs [OF s3]
    by simp
qed

lemma cleanup_twice_without_osc:
  assumes "osc s = 0" "cleanup s = Inr s'"
  shows "cleanup s' = Inr s'"
proof -
  have "osc s' = 0" "event_queue_ptr s' = 0" "event_generator_ptr s' = 0" "\<not> ok s'"
    using cleanup_ptrs [OF assms(2)] assms(1) by simp_all
  then show ?thesis
    by (simp add: cleanup_def cleanup_osc_def cleanup_event_queue_def
          cleanup_event_generator_def)
qed

lemma cleanup_twice_with_osc:
  assumes "osc s \<noteq> 0" "cleanup s = Inr s'"
  shows "cleanup s' = Inl (InvalidDelete (osc s))"
proof -
  obtain s1 where s1: "cleanup_osc s = Inr s1"
    using assms by (cases "cleanup_osc s") (simp_all add: cleanup_def)
  obtain s2 where s2: "cleanup_event_queue s1 = Inr s2"
    using assms s1 by (cases "cleanup_event_queue s1") (simp_all add: cleanup_def)
  obtain s3 where s3: "cleanup_event_generator s2 = Inr s3"
    using assms s1 s2 by (cases "cleanup_event_generator s2") (simp_all add: cleanup_def)
  have s': "s' = s3\<lparr>ok := False\<rparr>"
    using assms s1 s2 s3 by (simp add: cleanup_def)
  have "osc s \<notin> live s1"
    using s1 assms(1) by (auto simp: cleanup_osc_def delete_def split: if_splits)
  moreover have "live s2 \<subseteq> live s1"
    using s2 by (auto simp: cleanup_event_queue_def delete_def split: if_splits)
  moreover have "live s3 \<subseteq> live s2"
    using s3 by (auto simp: cleanup_event_generator_def delete_def split: if_splits)
  ultimately have "osc s \<notin> live s'" by (auto simp: s')
  moreover have "osc s' = osc s" using cleanup_ptrs [OF assms(2)] by simp
  ultimately show ?thesis
    using assms(1) by (simp add: cleanup_def cleanup_osc_def delete_def)
qed

text \<open>
  C10 (the code differs). After a successful initialisation (four live objects, the
  control front end at address 4), a first \<^verbatim>\<open>cleanup\<close> deletes the front end, the
  queue and the generator, clears the ready flag and the pointers to the queue and the
  generator, but keeps the pointer to the front end; a second \<^verbatim>\<open>cleanup\<close> deletes
  the front end again.
\<close>

theorem cleanup_twice_invalid_delete:
  "cleanup initialized_ptrs
     = Inr \<lparr>ok = False, osc = 4, event_generator_ptr = 0, event_queue_ptr = 0,
            nonrt_event_queue_ptr = 3, live = {3}\<rparr>
   \<and> cleanup \<lparr>ok = False, osc = 4, event_generator_ptr = 0, event_queue_ptr = 0,
            nonrt_event_queue_ptr = 3, live = {3}\<rparr> = Inl (InvalidDelete 4)"
  by (simp add: cleanup_def cleanup_osc_def cleanup_event_queue_def cleanup_event_generator_def
        delete_def initialized_ptrs_def insert_Diff_if)

end
